theory Spec2Isabelle
  imports Main
begin

section \<open>Errors (errors.go)\<close>

text \<open>
  Go's \<^verbatim>\<open>error\<close> interface, as far as this package produces it: an
  \<^verbatim>\<open>*HTTPError\<close> with its status code, message and optional wrapped cause, or
  any other error value, kept by its text.
\<close>

datatype error =
    HTTPError (StatusCode: int) (Message: string) (Err: "error option")
  | OtherError string

definition NewHTTPError :: "int \<Rightarrow> string \<Rightarrow> error list \<Rightarrow> error" where
  "NewHTTPError statusCode message errs =
     HTTPError statusCode message (case errs of [] \<Rightarrow> None | e # _ \<Rightarrow> Some e)"

definition StatusOK :: int where
  "StatusOK = 200"

definition StatusNotFound :: int where
  "StatusNotFound = 404"

section \<open>Request context (context.go)\<close>

text \<open>
  An \<^verbatim>\<open>http.ResponseWriter\<close> is an interface value: the state of whatever
  implements it, together with the two methods the wrapper calls. \<^verbatim>\<open>Write\<close>
  returns the number of bytes the implementation reports written and an optional error.
\<close>

record 'u http_ResponseWriter =
  impl :: 'u
  impl_WriteHeader :: "int \<Rightarrow> 'u \<Rightarrow> 'u"
  impl_Write :: "string \<Rightarrow> 'u \<Rightarrow> int \<times> error option \<times> 'u"

text \<open>
  \<^verbatim>\<open>type responseWriter struct { http.ResponseWriter; status int; size int }\<close>.
  Both counters are Go \<^verbatim>\<open>int\<close>s; they are modelled as unbounded integers (a
  64-bit \<^verbatim>\<open>size\<close> does not wrap below \<open>2^63\<close> bytes). The field
  \<^verbatim>\<open>size\<close> is called \<open>size_rw\<close> here.
\<close>

record 'u responseWriter =
  ResponseWriter :: "'u http_ResponseWriter"
  status :: int
  size_rw :: int

record Request =
  Method :: string
  Path :: string

text \<open>
  \<^verbatim>\<open>Context\<close>: the wrapped writer, the request, the path parameters and the
  request-scoped data. (The back pointer to the engine is left out: nothing below reads it.)
\<close>

record ('u, 'v) Context =
  Writer :: "'u responseWriter"
  Request :: Request
  pathParams :: "string \<rightharpoonup> string"
  data :: "string \<rightharpoonup> 'v"

definition newContext :: "'u http_ResponseWriter \<Rightarrow> Request \<Rightarrow> ('u, 'v) Context" where
  "newContext w r =
     \<lparr>Writer = \<lparr>ResponseWriter = w, status = 0, size_rw = 0\<rparr>,
      Request = r, pathParams = Map.empty, data = Map.empty\<rparr>"

definition WriteHeader :: "int \<Rightarrow> 'u responseWriter \<Rightarrow> 'u responseWriter" where
  "WriteHeader statusCode rw =
     (let rw1 = rw\<lparr>status := statusCode\<rparr>;
          w = ResponseWriter rw1
      in rw1\<lparr>ResponseWriter := w\<lparr>impl := impl_WriteHeader w statusCode (impl w)\<rparr>\<rparr>)"

definition Write :: "string \<Rightarrow> 'u responseWriter \<Rightarrow> (int \<times> error option) \<times> 'u responseWriter" where
  "Write b rw =
     (let w = ResponseWriter rw;
          (n, err, u) = impl_Write w b (impl w);
          rw1 = rw\<lparr>ResponseWriter := w\<lparr>impl := u\<rparr>\<rparr>
      in ((n, err), rw1\<lparr>size_rw := size_rw rw1 + n\<rparr>))"

definition Status :: "('u, 'v) Context \<Rightarrow> int" where
  "Status c = (if status (Writer c) = 0 then StatusOK else status (Writer c))"

definition SetPathParams :: "(string \<rightharpoonup> string) \<Rightarrow> ('u, 'v) Context \<Rightarrow> ('u, 'v) Context" where
  "SetPathParams params c = c\<lparr>pathParams := params\<rparr>"

text \<open>\<^verbatim>\<open>Param\<close>: reading a missing key of a Go map gives the zero value, the empty string.\<close>

definition Param :: "string \<Rightarrow> ('u, 'v) Context \<Rightarrow> string" where
  "Param key c = (case pathParams c key of None \<Rightarrow> [] | Some v \<Rightarrow> v)"

definition Set_data :: "string \<Rightarrow> 'v \<Rightarrow> ('u, 'v) Context \<Rightarrow> ('u, 'v) Context" where
  "Set_data key val c = c\<lparr>data := (data c)(key \<mapsto> val)\<rparr>"

definition Get_data :: "string \<Rightarrow> ('u, 'v) Context \<Rightarrow> 'v option" where
  "Get_data key c = data c key"

text \<open>
  What a caller can do to the writer of a context: the two methods of the facade. A run
  of calls is a list of such operations, applied from the left.
\<close>

datatype writer_op = OpWriteHeader int | OpWrite string

fun apply_writer_op :: "writer_op \<Rightarrow> ('u, 'v) Context \<Rightarrow> ('u, 'v) Context" where
  "apply_writer_op (OpWriteHeader s) c = c\<lparr>Writer := WriteHeader s (Writer c)\<rparr>"
| "apply_writer_op (OpWrite b) c = c\<lparr>Writer := snd (Write b (Writer c))\<rparr>"

fun apply_writer_ops :: "writer_op list \<Rightarrow> ('u, 'v) Context \<Rightarrow> ('u, 'v) Context" where
  "apply_writer_ops [] c = c"
| "apply_writer_ops (x # xs) c = apply_writer_ops xs (apply_writer_op x c)"

fun is_OpWrite :: "writer_op \<Rightarrow> bool" where
  "is_OpWrite (OpWrite b) = True"
| "is_OpWrite (OpWriteHeader s) = False"

text \<open>
  The server's own response writer, as the documentation of \<^verbatim>\<open>net/http\<close>
  describes it: only the first \<^verbatim>\<open>WriteHeader\<close> reaches the wire, later calls are
  superfluous and ignored, and a \<^verbatim>\<open>Write\<close> before any header sends an implicit 200.
  Only final status codes are modelled: informational (1xx) codes and codes outside
  100..999, which \<^verbatim>\<open>net/http\<close> treats differently, are not.
\<close>

record wire =
  wroteHeader :: bool
  sentStatus :: int
  body :: string

definition wire_WriteHeader :: "int \<Rightarrow> wire \<Rightarrow> wire" where
  "wire_WriteHeader s u = (if wroteHeader u then u else u\<lparr>wroteHeader := True, sentStatus := s\<rparr>)"

definition wire_Write :: "string \<Rightarrow> wire \<Rightarrow> int \<times> error option \<times> wire" where
  "wire_Write b u =
     (let u1 = wire_WriteHeader StatusOK u
      in (int (length b), None, u1\<lparr>body := body u1 @ b\<rparr>))"

definition server_writer :: "wire http_ResponseWriter" where
  "server_writer =
     \<lparr>impl = \<lparr>wroteHeader = False, sentStatus = 0, body = []\<rparr>,
      impl_WriteHeader = wire_WriteHeader, impl_Write = wire_Write\<rparr>"

definition example_request :: Request where
  "example_request = \<lparr>Method = ''GET'', Path = ''/users/42''\<rparr>"

definition example_context :: "(wire, string) Context" where
  "example_context = newContext server_writer example_request"

section \<open>Properties of the request context\<close>

lemma status_WriteHeader: "status (WriteHeader s rw) = s"
  by (simp add: WriteHeader_def Let_def)

lemma status_Write: "status (snd (Write b rw)) = status rw"
  by (simp add: Write_def Let_def split: prod.splits)

lemma status_only_writes:
  "list_all is_OpWrite ops \<Longrightarrow> status (Writer (apply_writer_ops ops c)) = status (Writer c)"
proof (induction ops arbitrary: c)
  case Nil
  then show ?case by simp
next
  case (Cons x xs)
  then show ?case by (cases x) (simp_all add: status_Write)
qed

text \<open>
  C10. On a context created by \<^verbatim>\<open>newContext\<close> on which \<^verbatim>\<open>WriteHeader\<close> has never
  been called (whatever has been written to the body), \<^verbatim>\<open>Status()\<close> returns 200.
\<close>

theorem Status_default_200:
  "list_all is_OpWrite ops \<Longrightarrow> Status (apply_writer_ops ops (newContext w r)) = 200"
  by (simp add: Status_def status_only_writes StatusOK_def newContext_def)

theorem Status_default_200_witness:
  "list_all is_OpWrite [OpWrite ''hello'', OpWrite ''world''] \<and>
   Status (apply_writer_ops [OpWrite ''hello'', OpWrite ''world''] example_context) = 200"
  using Status_default_200 [of "[OpWrite ''hello'', OpWrite ''world'']" server_writer example_request]
  by (simp add: example_context_def)


lemma status_two_WriteHeaders: "status (WriteHeader s2 (WriteHeader s1 rw)) = s2"
  by (simp add: status_WriteHeader)

lemma size_Write: "size_rw (snd (Write b rw)) = size_rw rw + fst (fst (Write b rw))"
  by (simp add: Write_def Let_def split: prod.splits)

lemma size_WriteHeader: "size_rw (WriteHeader s rw) = size_rw rw"
  by (simp add: WriteHeader_def Let_def)

text \<open>
  C7. The facade does not keep the first status code: each \<^verbatim>\<open>WriteHeader\<close>
  overwrites the recorded one. After \<^verbatim>\<open>WriteHeader(200)\<close> and then
  \<^verbatim>\<open>WriteHeader(500)\<close> on the server's writer, \<^verbatim>\<open>Status()\<close> returns 500 while
  the status that went out to the client is 200. (The byte count is cumulative, as
  \<open>size_Write\<close> shows.)
\<close>

theorem Status_keeps_last_WriteHeader:
  "Status (apply_writer_ops [OpWriteHeader 200, OpWriteHeader 500] example_context) = 500 \<and>
   sentStatus (impl (ResponseWriter (Writer
     (apply_writer_ops [OpWriteHeader 200, OpWriteHeader 500] example_context)))) = 200"
  by (simp add: Status_def WriteHeader_def Let_def example_context_def newContext_def
                server_writer_def wire_WriteHeader_def StatusOK_def)

section \<open>Server-sent events (sse.go)\<close>


text \<open>
  Channels are references: the registry and the client's serving goroutine hold the same
  channel. They live in a store, addressed by numbers; \<^verbatim>\<open>make(chan string, 5)\<close>
  allocates the next free address. Closing a closed channel and sending on a closed
  channel are run-time panics. (The mutex and the logger are left out.)
\<close>

datatype panic = SendOnClosedChannel | CloseOfClosedChannel | CloseOfNilChannel

record chan =
  buf :: "string list"
  cap :: nat
  closed :: bool

record SSEClient =
  ID :: string
  Chan :: nat

record SSEManager =
  clients :: "string \<rightharpoonup> (string \<rightharpoonup> SSEClient)"
  chans :: "nat \<rightharpoonup> chan"
  next_chan :: nat

definition NewSSEManager :: SSEManager where
  "NewSSEManager = \<lparr>clients = Map.empty, chans = Map.empty, next_chan = 0\<rparr>"

definition make_chan :: "nat \<Rightarrow> chan" where
  "make_chan n = \<lparr>buf = [], cap = n, closed = False\<rparr>"

text \<open>
  \<^verbatim>\<open>AddClient\<close>, as far as the registry goes: the topic's map is created when it is
  missing, and the client is stored under its id with a fresh channel of capacity 5 (an
  earlier client with the same id is replaced). The response headers it sets are not
  modelled. The goroutine it starts takes messages from the channel (\<open>chan_recv\<close>),
  writes heartbeats, and calls \<^verbatim>\<open>RemoveClient\<close> when the request is cancelled.
\<close>

definition AddClient :: "string \<Rightarrow> string \<Rightarrow> SSEManager \<Rightarrow> SSEManager" where
  "AddClient docID clientID sm =
     (let docClients = (case clients sm docID of None \<Rightarrow> Map.empty | Some m \<Rightarrow> m);
          clientChan = next_chan sm
      in sm\<lparr>clients := (clients sm)(docID \<mapsto> docClients(clientID \<mapsto> \<lparr>ID = clientID, Chan = clientChan\<rparr>)),
            chans := (chans sm)(clientChan \<mapsto> make_chan 5),
            next_chan := Suc clientChan\<rparr>)"

text \<open>
  \<^verbatim>\<open>RemoveClient\<close>: a registered client's channel is closed and its entry deleted;
  the topic's entry is deleted with its last client. An unknown topic or client changes
  nothing.
\<close>

definition close_chan :: "nat \<Rightarrow> (nat \<rightharpoonup> chan) \<Rightarrow> panic + (nat \<rightharpoonup> chan)" where
  "close_chan ch h =
     (case h ch of
        None \<Rightarrow> Inl CloseOfNilChannel
      | Some c \<Rightarrow> if closed c then Inl CloseOfClosedChannel else Inr (h(ch \<mapsto> c\<lparr>closed := True\<rparr>)))"

definition RemoveClient :: "string \<Rightarrow> string \<Rightarrow> SSEManager \<Rightarrow> panic + SSEManager" where
  "RemoveClient docID clientID sm =
     (case clients sm docID of
        None \<Rightarrow> Inr sm
      | Some docClients \<Rightarrow>
          (case docClients clientID of
             None \<Rightarrow> Inr sm
           | Some client \<Rightarrow>
               (case close_chan (Chan client) (chans sm) of
                  Inl p \<Rightarrow> Inl p
                | Inr h \<Rightarrow>
                    (let docClients' = docClients(clientID := None)
                     in if docClients' = Map.empty
                        then Inr (sm\<lparr>chans := h, clients := (clients sm)(docID := None)\<rparr>)
                        else Inr (sm\<lparr>chans := h, clients := (clients sm)(docID \<mapsto> docClients')\<rparr>)))))"

text \<open>
  \<^verbatim>\<open>select { case client.Chan <- message: default: }\<close>: the send goes through
  when the buffer has room, and the default branch is taken otherwise.
\<close>

definition try_send :: "nat \<Rightarrow> string \<Rightarrow> (nat \<rightharpoonup> chan) \<Rightarrow> panic + (nat \<rightharpoonup> chan)" where
  "try_send ch message h =
     (case h ch of
        None \<Rightarrow> Inr h
      | Some c \<Rightarrow>
          if closed c then Inl SendOnClosedChannel
          else if length (buf c) < cap c then Inr (h(ch \<mapsto> c\<lparr>buf := buf c @ [message]\<rparr>))
          else Inr h)"

fun send_all :: "SSEClient list \<Rightarrow> string \<Rightarrow> (nat \<rightharpoonup> chan) \<Rightarrow> panic + (nat \<rightharpoonup> chan)" where
  "send_all [] message h = Inr h"
| "send_all (client # rest) message h =
     (case try_send (Chan client) message h of
        Inl p \<Rightarrow> Inl p
      | Inr h' \<Rightarrow> send_all rest message h')"

text \<open>
  \<^verbatim>\<open>for _, client := range docClients\<close> visits the entries of a Go map in an order
  the language leaves open. The order is a parameter: a list of the map's keys, each once.
\<close>

definition range_order :: "'k list \<Rightarrow> ('k \<rightharpoonup> 'v) \<Rightarrow> bool" where
  "range_order ks m = (distinct ks \<and> set ks = dom m)"

definition range_values :: "'k list \<Rightarrow> ('k \<rightharpoonup> 'v) \<Rightarrow> 'v list" where
  "range_values ks m = List.map_filter m ks"

definition Broadcast :: "string list \<Rightarrow> string \<Rightarrow> string \<Rightarrow> SSEManager \<Rightarrow> panic + SSEManager" where
  "Broadcast ks docID message sm =
     (case clients sm docID of
        None \<Rightarrow> Inr sm
      | Some docClients \<Rightarrow>
          (case send_all (range_values ks docClients) message (chans sm) of
             Inl p \<Rightarrow> Inl p
           | Inr h \<Rightarrow> Inr (sm\<lparr>chans := h\<rparr>)))"

text \<open>
  \<^verbatim>\<open>msg := <-clientChan\<close> as one step of the serving goroutine: the oldest queued
  message; on a closed and empty channel the zero value; otherwise nothing to receive yet.
\<close>

definition chan_recv :: "nat \<Rightarrow> (nat \<rightharpoonup> chan) \<Rightarrow> (string \<times> (nat \<rightharpoonup> chan)) option" where
  "chan_recv ch h =
     (case h ch of
        None \<Rightarrow> None
      | Some c \<Rightarrow>
          (case buf c of
             m # ms \<Rightarrow> Some (m, h(ch \<mapsto> c\<lparr>buf := ms\<rparr>))
           | [] \<Rightarrow> if closed c then Some ([], h) else None))"

text \<open>
  The invariant of the registry: every registered client's channel is open, has capacity 5
  and holds at most 5 messages; no two registrations share a channel; every allocated
  channel lies below the allocation counter.
\<close>

definition registered :: "SSEManager \<Rightarrow> string \<Rightarrow> string \<Rightarrow> SSEClient \<Rightarrow> bool" where
  "registered sm docID clientID client =
     (case clients sm docID of None \<Rightarrow> False | Some m \<Rightarrow> m clientID = Some client)"

definition chan_ready :: "SSEManager \<Rightarrow> nat \<Rightarrow> bool" where
  "chan_ready sm ch =
     (case chans sm ch of None \<Rightarrow> False
      | Some c \<Rightarrow> \<not> closed c \<and> cap c = 5 \<and> length (buf c) \<le> 5 \<and> ch < next_chan sm)"

definition sse_inv :: "SSEManager \<Rightarrow> bool" where
  "sse_inv sm =
     ((\<forall>d k cl. registered sm d k cl \<longrightarrow> chan_ready sm (Chan cl)) \<and>
      (\<forall>d k cl d' k' cl'. registered sm d k cl \<and> registered sm d' k' cl' \<and> Chan cl = Chan cl'
          \<longrightarrow> d = d' \<and> k = k') \<and>
      (\<forall>ch. ch \<in> dom (chans sm) \<longrightarrow> ch < next_chan sm))"

definition topics_nonempty :: "SSEManager \<Rightarrow> bool" where
  "topics_nonempty sm = (\<forall>d m. clients sm d = Some m \<longrightarrow> m \<noteq> Map.empty)"

text \<open>What a non-blocking send does to a channel that is open.\<close>

definition push :: "string \<Rightarrow> chan \<Rightarrow> chan" where
  "push message c = (if length (buf c) < cap c then c\<lparr>buf := buf c @ [message]\<rparr> else c)"

lemma send_all_open:
  "distinct (map Chan cls) \<Longrightarrow>
   \<forall>cl \<in> set cls. \<exists>c. h (Chan cl) = Some c \<and> \<not> closed c \<Longrightarrow>
   send_all cls message h =
     Inr (\<lambda>ch. if ch \<in> Chan ` set cls then map_option (push message) (h ch) else h ch)"
proof (induction cls arbitrary: h)
  case Nil
  then show ?case by simp
next
  case (Cons cl cls)
  from Cons.prems obtain c where c: "h (Chan cl) = Some c" "\<not> closed c" by auto
  let ?h' = "h(Chan cl \<mapsto> push message c)"
  have ts: "try_send (Chan cl) message h = Inr ?h'"
    using c by (auto simp: try_send_def push_def)
  have notin: "Chan cl \<notin> Chan ` set cls" using Cons.prems(1) by auto
  have op: "\<forall>x \<in> set cls. \<exists>c. ?h' (Chan x) = Some c \<and> \<not> closed c"
  proof
    fix x assume x: "x \<in> set cls"
    then have "Chan x \<noteq> Chan cl" using notin by (metis image_eqI)
    then have "?h' (Chan x) = h (Chan x)" by simp
    then show "\<exists>c. ?h' (Chan x) = Some c \<and> \<not> closed c"
      using Cons.prems(2) x by simp
  qed
  have d: "distinct (map Chan cls)" using Cons.prems(1) by simp
  have rest: "send_all cls message ?h' =
     Inr (\<lambda>ch. if ch \<in> Chan ` set cls then map_option (push message) (?h' ch) else ?h' ch)"
    by (rule Cons.IH[OF d op])
  have "(\<lambda>ch. if ch \<in> Chan ` set cls then map_option (push message) (?h' ch) else ?h' ch) =
        (\<lambda>ch. if ch \<in> Chan ` set (cl # cls) then map_option (push message) (h ch) else h ch)"
    using notin c(1) by (auto simp: fun_eq_iff)
  then show ?case using ts rest by simp
qed


text \<open>A run of publishes to one topic, each with its own visiting order.\<close>

fun Broadcasts :: "(string list \<times> string) list \<Rightarrow> string \<Rightarrow> SSEManager \<Rightarrow> panic + SSEManager" where
  "Broadcasts [] docID sm = Inr sm"
| "Broadcasts ((ks, message) # rest) docID sm =
     (case Broadcast ks docID message sm of
        Inl p \<Rightarrow> Inl p
      | Inr sm' \<Rightarrow> Broadcasts rest docID sm')"

lemma range_values_map: "set ks \<subseteq> dom m \<Longrightarrow> range_values ks m = map (\<lambda>k. the (m k)) ks"
  unfolding range_values_def map_filter_def
  by (induction ks) (auto simp: dom_def)

lemma set_range_values: "set ks = dom m \<Longrightarrow> set (range_values ks m) = ran m"
  by (auto simp: range_values_map ran_def dom_def image_iff) (metis domI option.sel)+

lemma push_props:
  "closed (push message c) = closed c" "cap (push message c) = cap c"
  "length (buf c) \<le> cap c \<Longrightarrow> length (buf (push message c)) \<le> cap c"
  by (auto simp: push_def)

lemma Broadcast_inv_eq:
  assumes inv: "sse_inv sm" and m: "clients sm docID = Some m" and ord: "range_order ks m"
  shows "Broadcast ks docID message sm =
     Inr (sm\<lparr>chans := (\<lambda>ch. if ch \<in> Chan ` ran m then map_option (push message) (chans sm ch)
                              else chans sm ch)\<rparr>)"
proof -
  have ks: "set ks = dom m" "distinct ks" using ord by (auto simp: range_order_def)
  have reg: "\<And>k cl. m k = Some cl \<Longrightarrow> registered sm docID k cl"
    using m by (simp add: registered_def)
  have rv: "range_values ks m = map (\<lambda>k. the (m k)) ks" using ks(1) by (simp add: range_values_map)
  have inj: "inj_on (\<lambda>k. Chan (the (m k))) (set ks)"
  proof (rule inj_onI)
    fix x y assume x: "x \<in> set ks" and y: "y \<in> set ks" and e: "Chan (the (m x)) = Chan (the (m y))"
    from x y ks(1) obtain cx cy where c: "m x = Some cx" "m y = Some cy" by auto
    with e have "Chan cx = Chan cy" by simp
    with inv reg[OF c(1)] reg[OF c(2)] show "x = y" unfolding sse_inv_def by blast
  qed
  have d: "distinct (map Chan (range_values ks m))"
    using ks(2) inj by (simp add: rv distinct_map comp_def)
  have op: "\<forall>cl \<in> set (range_values ks m). \<exists>c. chans sm (Chan cl) = Some c \<and> \<not> closed c"
  proof
    fix cl assume "cl \<in> set (range_values ks m)"
    then have "cl \<in> ran m" using ks(1) by (simp add: set_range_values)
    then obtain k where "m k = Some cl" by (auto simp: ran_def)
    then have "chan_ready sm (Chan cl)" using inv reg unfolding sse_inv_def by blast
    then show "\<exists>c. chans sm (Chan cl) = Some c \<and> \<not> closed c"
      by (auto simp: chan_ready_def split: option.splits)
  qed
  show ?thesis
    using send_all_open[OF d op, of message] m ks(1)
    by (simp add: Broadcast_def set_range_values)
qed

lemma Broadcast_preserves_inv:
  assumes inv: "sse_inv sm" and m: "clients sm docID = Some m" and ord: "range_order ks m"
    and b: "Broadcast ks docID message sm = Inr sm'"
  shows "sse_inv sm'"
proof -
  let ?h = "\<lambda>ch. if ch \<in> Chan ` ran m then map_option (push message) (chans sm ch) else chans sm ch"
  have sm': "sm' = sm\<lparr>chans := ?h\<rparr>"
    using Broadcast_inv_eq[OF inv m ord, of message] b by simp
  have reg: "\<And>d k cl. registered sm' d k cl = registered sm d k cl"
    by (simp add: sm' registered_def)
  have ready: "\<And>ch. chan_ready sm ch \<Longrightarrow> chan_ready sm' ch"
    by (auto simp: sm' chan_ready_def push_def split: option.splits)
  have dom: "dom (chans sm') = dom (chans sm)"
    by (auto simp: sm' dom_def split: if_splits)
  have nx: "next_chan sm' = next_chan sm" by (simp add: sm')
  show ?thesis
    using inv unfolding sse_inv_def reg dom nx
    by (meson ready)
qed


lemma sse_inv_New: "sse_inv NewSSEManager"
  by (simp add: sse_inv_def NewSSEManager_def registered_def)

lemma registered_AddClient:
  "registered (AddClient docID clientID sm) d k cl =
     (if d = docID \<and> k = clientID then cl = \<lparr>ID = clientID, Chan = next_chan sm\<rparr>
      else registered sm d k cl)"
  by (auto simp: registered_def AddClient_def Let_def split: option.splits)

lemma chan_ready_AddClient:
  "chan_ready (AddClient docID clientID sm) ch =
     (if ch = next_chan sm then True else chan_ready sm ch \<or>
        (case chans sm ch of None \<Rightarrow> False
         | Some c \<Rightarrow> \<not> closed c \<and> cap c = 5 \<and> length (buf c) \<le> 5 \<and> ch = next_chan sm))"
  by (auto simp: chan_ready_def AddClient_def Let_def make_chan_def split: option.splits)

lemma AddClient_preserves_inv:
  assumes inv: "sse_inv sm"
  shows "sse_inv (AddClient docID clientID sm)"
proof -
  let ?sm' = "AddClient docID clientID sm"
  have old: "\<And>d k cl. registered sm d k cl \<Longrightarrow> Chan cl < next_chan sm"
    using inv unfolding sse_inv_def chan_ready_def by (fastforce split: option.splits)
  have a: "\<forall>d k cl. registered ?sm' d k cl \<longrightarrow> chan_ready ?sm' (Chan cl)"
  proof (intro allI impI)
    fix d k cl assume r: "registered ?sm' d k cl"
    show "chan_ready ?sm' (Chan cl)"
    proof (cases "d = docID \<and> k = clientID")
      case True
      with r have "Chan cl = next_chan sm" by (simp add: registered_AddClient)
      then show ?thesis by (simp add: chan_ready_AddClient)
    next
      case False
      with r have "registered sm d k cl" by (auto simp: registered_AddClient split: if_splits)
      then have "chan_ready sm (Chan cl)" using inv unfolding sse_inv_def by blast
      then show ?thesis by (simp add: chan_ready_AddClient)
    qed
  qed
  have b: "\<forall>d k cl d' k' cl'. registered ?sm' d k cl \<and> registered ?sm' d' k' cl' \<and> Chan cl = Chan cl'
          \<longrightarrow> d = d' \<and> k = k'"
  proof (intro allI impI, elim conjE)
    fix d k cl d' k' cl'
    assume r: "registered ?sm' d k cl" and r': "registered ?sm' d' k' cl'" and e: "Chan cl = Chan cl'"
    show "d = d' \<and> k = k'"
    proof (cases "d = docID \<and> k = clientID")
      case T1: True
      then have c: "Chan cl = next_chan sm" using r by (simp add: registered_AddClient)
      show ?thesis
      proof (cases "d' = docID \<and> k' = clientID")
        case True
        with T1 show ?thesis by simp
      next
        case False
        with r' have "registered sm d' k' cl'" by (auto simp: registered_AddClient split: if_splits)
        from old[OF this] c e show ?thesis by simp
      qed
    next
      case F1: False
      with r have o: "registered sm d k cl" by (auto simp: registered_AddClient split: if_splits)
      show ?thesis
      proof (cases "d' = docID \<and> k' = clientID")
        case True
        then have "Chan cl' = next_chan sm" using r' by (simp add: registered_AddClient)
        with old[OF o] e show ?thesis by simp
      next
        case False
        with r' have "registered sm d' k' cl'" by (auto simp: registered_AddClient split: if_splits)
        with o e inv show ?thesis unfolding sse_inv_def by blast
      qed
    qed
  qed
  have c: "\<forall>ch. ch \<in> dom (chans ?sm') \<longrightarrow> ch < next_chan ?sm'"
    using inv unfolding sse_inv_def by (auto simp: AddClient_def Let_def less_Suc_eq)
  show ?thesis unfolding sse_inv_def using a b c by blast
qed

lemma RemoveClient_cases:
  assumes "RemoveClient docID clientID sm = Inr sm'"
  shows "(sm' = sm \<and> (\<forall>cl. \<not> registered sm docID clientID cl)) \<or>
         (\<exists>m cl c. clients sm docID = Some m \<and> m clientID = Some cl \<and>
            chans sm (Chan cl) = Some c \<and> \<not> closed c \<and>
            chans sm' = (chans sm)(Chan cl \<mapsto> c\<lparr>closed := True\<rparr>) \<and>
            next_chan sm' = next_chan sm \<and>
            clients sm' = (clients sm)(docID := if m(clientID := None) = Map.empty then None
                                                else Some (m(clientID := None))))"
  using assms
  by (auto simp: RemoveClient_def registered_def close_chan_def Let_def
           split: option.splits sum.splits if_splits)

lemma RemoveClient_no_panic:
  assumes inv: "sse_inv sm"
  shows "\<exists>sm'. RemoveClient docID clientID sm = Inr sm'"
proof (cases "\<exists>cl. registered sm docID clientID cl")
  case False
  then show ?thesis
    by (auto simp: RemoveClient_def registered_def split: option.splits)
next
  case True
  then obtain cl where r: "registered sm docID clientID cl" by blast
  then have "chan_ready sm (Chan cl)" using inv unfolding sse_inv_def by blast
  then obtain c where "chans sm (Chan cl) = Some c" "\<not> closed c"
    by (auto simp: chan_ready_def split: option.splits)
  with r show ?thesis
    by (auto simp: RemoveClient_def registered_def close_chan_def Let_def split: option.splits)
qed

lemma RemoveClient_preserves_inv:
  assumes inv: "sse_inv sm" and rm: "RemoveClient docID clientID sm = Inr sm'"
  shows "sse_inv sm'"
proof -
  from RemoveClient_cases[OF rm] show ?thesis
  proof (elim disjE exE conjE)
    assume "sm' = sm"
    with inv show ?thesis by simp
  next
    fix m cl c
    assume m: "clients sm docID = Some m" and k: "m clientID = Some cl"
      and c: "chans sm (Chan cl) = Some c" "\<not> closed c"
      and h: "chans sm' = (chans sm)(Chan cl \<mapsto> c\<lparr>closed := True\<rparr>)"
      and n: "next_chan sm' = next_chan sm"
      and cs: "clients sm' = (clients sm)(docID := if m(clientID := None) = Map.empty then None
                                                else Some (m(clientID := None)))"
    have rcl: "registered sm docID clientID cl" using m k by (simp add: registered_def)
    have reg: "\<And>d k cl'. registered sm' d k cl' \<Longrightarrow> registered sm d k cl' \<and> \<not> (d = docID \<and> k = clientID)"
      using m by (auto simp: registered_def cs split: option.splits if_splits)
    have a: "\<forall>d k cl'. registered sm' d k cl' \<longrightarrow> chan_ready sm' (Chan cl')"
    proof (intro allI impI)
      fix d k cl' assume "registered sm' d k cl'"
      from reg[OF this] have o: "registered sm d k cl'" and ne: "\<not> (d = docID \<and> k = clientID)" by auto
      have "Chan cl' \<noteq> Chan cl" using inv o rcl ne unfolding sse_inv_def by blast
      moreover have "chan_ready sm (Chan cl')" using inv o unfolding sse_inv_def by blast
      ultimately show "chan_ready sm' (Chan cl')"
        by (simp add: chan_ready_def h n split: option.splits)
    qed
    have b: "\<forall>d k cl1 d' k' cl2. registered sm' d k cl1 \<and> registered sm' d' k' cl2 \<and> Chan cl1 = Chan cl2
          \<longrightarrow> d = d' \<and> k = k'"
      using inv reg unfolding sse_inv_def by blast
    have d: "\<forall>ch. ch \<in> dom (chans sm') \<longrightarrow> ch < next_chan sm'"
      using inv c(1) unfolding sse_inv_def by (auto simp: h n)
    show ?thesis unfolding sse_inv_def using a b d by blast
  qed
qed


lemma take_cap_push:
  "cap c = 5 \<Longrightarrow> length (buf c) \<le> 5 \<Longrightarrow>
   take 5 (buf (push message c) @ ms) = take 5 (buf c @ message # ms)"
  by (cases "length (buf c) < 5") (simp_all add: push_def)

lemma Broadcasts_queue:
  assumes "sse_inv sm" and "clients sm docID = Some m" and "m clientID = Some client"
    and "chans sm (Chan client) = Some c"
    and "list_all (\<lambda>p. range_order (fst p) m) pubs"
  shows "\<exists>sm'. Broadcasts pubs docID sm = Inr sm' \<and> sse_inv sm' \<and> clients sm' = clients sm \<and>
           map_option buf (chans sm' (Chan client)) = Some (take 5 (buf c @ map snd pubs))"
  using assms
proof (induction pubs arbitrary: sm c)
  case Nil
  have "registered sm docID clientID client" using Nil.prems(2,3) by (simp add: registered_def)
  then have "chan_ready sm (Chan client)" using Nil.prems(1) unfolding sse_inv_def by blast
  then have "length (buf c) \<le> 5" using Nil.prems(4) by (simp add: chan_ready_def)
  then show ?case using Nil.prems by simp
next
  case (Cons p pubs)
  obtain ks message where p: "p = (ks, message)" by (cases p)
  have ord: "range_order ks m" using Cons.prems(5) p by simp
  let ?h = "\<lambda>ch. if ch \<in> Chan ` ran m then map_option (push message) (chans sm ch) else chans sm ch"
  let ?sm1 = "sm\<lparr>chans := ?h\<rparr>"
  have b: "Broadcast ks docID message sm = Inr ?sm1"
    by (rule Broadcast_inv_eq[OF Cons.prems(1,2) ord])
  have inv1: "sse_inv ?sm1"
    by (rule Broadcast_preserves_inv[OF Cons.prems(1,2) ord b])
  have "client \<in> ran m" using Cons.prems(3) by (auto simp: ran_def)
  then have "Chan client \<in> Chan ` ran m" by (rule imageI)
  then have c1: "chans ?sm1 (Chan client) = Some (push message c)"
    using Cons.prems(4) by simp
  have "registered sm docID clientID client" using Cons.prems(2,3) by (simp add: registered_def)
  then have "chan_ready sm (Chan client)" using Cons.prems(1) unfolding sse_inv_def by blast
  then have cc: "cap c = 5" "length (buf c) \<le> 5" using Cons.prems(4) by (simp_all add: chan_ready_def)
  have m1: "clients ?sm1 docID = Some m" using Cons.prems(2) by simp
  have rest: "list_all (\<lambda>p. range_order (fst p) m) pubs" using Cons.prems(5) by simp
  from Cons.IH[OF inv1 m1 Cons.prems(3) c1 rest]
  obtain sm' where s: "Broadcasts pubs docID ?sm1 = Inr sm'" "sse_inv sm'" "clients sm' = clients ?sm1"
    "map_option buf (chans sm' (Chan client)) = Some (take 5 (buf (push message c) @ map snd pubs))"
    by blast
  have "Broadcasts (p # pubs) docID sm = Inr sm'" using b s(1) p by simp
  moreover have "clients sm' = clients sm" using s(3) by simp
  moreover have "map_option buf (chans sm' (Chan client)) = Some (take 5 (buf c @ map snd (p # pubs)))"
    using s(4) take_cap_push[OF cc, of message "map snd pubs"] p by simp
  ultimately show ?case using s(2) by blast
qed


text \<open>The three operations on the registry as one step function.\<close>

datatype sse_op =
    Subscribe string string
  | Unsubscribe string string
  | Publish "string list" string string

fun sse_step :: "sse_op \<Rightarrow> SSEManager \<Rightarrow> panic + SSEManager" where
  "sse_step (Subscribe docID clientID) sm = Inr (AddClient docID clientID sm)"
| "sse_step (Unsubscribe docID clientID) sm = RemoveClient docID clientID sm"
| "sse_step (Publish ks docID message) sm = Broadcast ks docID message sm"

fun op_order_ok :: "sse_op \<Rightarrow> SSEManager \<Rightarrow> bool" where
  "op_order_ok (Publish ks docID message) sm =
     (case clients sm docID of None \<Rightarrow> True | Some m \<Rightarrow> range_order ks m)"
| "op_order_ok _ sm = True"

lemma topics_nonempty_New: "topics_nonempty NewSSEManager"
  by (simp add: topics_nonempty_def NewSSEManager_def)

lemma AddClient_topics_nonempty:
  "topics_nonempty sm \<Longrightarrow> topics_nonempty (AddClient docID clientID sm)"
  unfolding topics_nonempty_def AddClient_def Let_def
  by (auto split: option.splits if_splits)

lemma RemoveClient_topics_nonempty:
  assumes "topics_nonempty sm" and "RemoveClient docID clientID sm = Inr sm'"
  shows "topics_nonempty sm'"
proof -
  have "m' \<noteq> Map.empty" if c: "clients sm' d = Some m'" for d m'
    using RemoveClient_cases[OF assms(2)]
  proof (elim disjE exE conjE)
    assume "sm' = sm"
    then show ?thesis using assms(1) c unfolding topics_nonempty_def by blast
  next
    fix m cl ch
    assume cs: "clients sm' = (clients sm)(docID := if m(clientID := None) = Map.empty then None
                                                else Some (m(clientID := None)))"
    show ?thesis
    proof (cases "d = docID")
      case True
      then show ?thesis using c cs by (simp split: if_splits)
    next
      case False
      then have "clients sm d = Some m'" using c cs by simp
      then show ?thesis using assms(1) unfolding topics_nonempty_def by blast
    qed
  qed
  then show ?thesis unfolding topics_nonempty_def by blast
qed

lemma Broadcast_clients:
  "Broadcast ks docID message sm = Inr sm' \<Longrightarrow> clients sm' = clients sm"
  by (auto simp: Broadcast_def split: option.splits sum.splits)

lemma Broadcast_topics_nonempty:
  "topics_nonempty sm \<Longrightarrow> Broadcast ks docID message sm = Inr sm' \<Longrightarrow> topics_nonempty sm'"
  by (simp add: topics_nonempty_def Broadcast_clients)

lemma sse_step_topics_nonempty:
  "topics_nonempty sm \<Longrightarrow> sse_step op sm = Inr sm' \<Longrightarrow> topics_nonempty sm'"
  by (cases op)
     (auto intro: AddClient_topics_nonempty RemoveClient_topics_nonempty Broadcast_topics_nonempty)

lemma sse_step_inv:
  assumes inv: "sse_inv sm" and ok: "op_order_ok op sm"
  shows "\<exists>sm'. sse_step op sm = Inr sm' \<and> sse_inv sm'"
proof (cases op)
  case (Subscribe d k)
  then show ?thesis using AddClient_preserves_inv[OF inv] by simp
next
  case (Unsubscribe d k)
  then show ?thesis
    using RemoveClient_no_panic[OF inv, of d k] RemoveClient_preserves_inv[OF inv] by auto
next
  case (Publish ks d message)
  show ?thesis
  proof (cases "clients sm d")
    case None
    then show ?thesis using Publish inv by (simp add: Broadcast_def)
  next
    case (Some m)
    then have ord: "range_order ks m" using ok Publish by simp
    from Broadcast_inv_eq[OF inv Some ord, of message]
      Broadcast_preserves_inv[OF inv Some ord, of message]
    show ?thesis using Publish by simp
  qed
qed

lemma RemoveClient_unregisters:
  assumes "RemoveClient docID clientID sm = Inr sm'"
  shows "\<not> registered sm' docID clientID cl"
  using RemoveClient_cases[OF assms]
  by (auto simp: registered_def split: option.splits if_splits)

lemma RemoveClient_last:
  assumes rm: "RemoveClient docID clientID sm = Inr sm'"
    and m: "clients sm docID = Some m" and d: "dom m = {clientID}"
  shows "clients sm' docID = None"
proof -
  have "m(clientID := None) = Map.empty"
    using d by (auto simp: fun_eq_iff dom_def)
  moreover obtain cl where "m clientID = Some cl" using d by auto
  ultimately show ?thesis
    using RemoveClient_cases[OF rm] m by (auto simp: registered_def)
qed

lemma RemoveClient_others:
  assumes rm: "RemoveClient docID clientID sm = Inr sm'"
    and m: "clients sm docID = Some m" and d: "dom m \<noteq> {clientID}" and k: "clientID \<in> dom m"
  shows "clients sm' docID = Some (m(clientID := None))"
proof -
  have "m(clientID := None) \<noteq> Map.empty"
  proof
    assume e: "m(clientID := None) = Map.empty"
    have "dom m = {clientID}"
    proof (rule set_eqI)
      fix x
      have "(m(clientID := None)) x = None" using e by simp
      then show "(x \<in> dom m) = (x \<in> {clientID})" using k by (auto split: if_splits)
    qed
    with d show False by simp
  qed
  then show ?thesis
    using RemoveClient_cases[OF rm] m k by (auto simp: registered_def)
qed

lemma Broadcast_skips_removed:
  assumes inv: "sse_inv sm" and rm: "RemoveClient docID clientID sm = Inr sm'"
    and r: "registered sm docID clientID cl" and ok: "op_order_ok (Publish ks docID message) sm'"
  shows "\<exists>sm''. Broadcast ks docID message sm' = Inr sm'' \<and>
           chans sm'' (Chan cl) = chans sm' (Chan cl)"
proof -
  have inv': "sse_inv sm'" by (rule RemoveClient_preserves_inv[OF inv rm])
  from RemoveClient_cases[OF rm] r
  obtain c where c: "chans sm' (Chan cl) = Some (c\<lparr>closed := True\<rparr>)"
    by (auto simp: registered_def)
  show ?thesis
  proof (cases "clients sm' docID")
    case None
    then show ?thesis by (simp add: Broadcast_def)
  next
    case (Some m')
    then have ord: "range_order ks m'" using ok by simp
    have "Chan cl \<notin> Chan ` ran m'"
    proof
      assume "Chan cl \<in> Chan ` ran m'"
      then obtain cl' k' where k': "m' k' = Some cl'" "Chan cl' = Chan cl"
        by (auto simp: ran_def)
      then have "registered sm' docID k' cl'" using Some by (simp add: registered_def)
      then have "chan_ready sm' (Chan cl')" using inv' unfolding sse_inv_def by blast
      then show False using c k'(2) by (simp add: chan_ready_def)
    qed
    then show ?thesis using Broadcast_inv_eq[OF inv' Some ord, of message] by simp
  qed
qed


text \<open>A registry with one subscriber, and seven publishes to its topic.\<close>

definition example_sse :: SSEManager where
  "example_sse = AddClient ''doc1'' ''alice'' NewSSEManager"

definition example_pubs :: "(string list \<times> string) list" where
  "example_pubs = map (Pair [''alice'']) [''m1'', ''m2'', ''m3'', ''m4'', ''m5'', ''m6'', ''m7'']"

lemma example_sse_inv: "sse_inv example_sse"
  unfolding example_sse_def by (rule AddClient_preserves_inv[OF sse_inv_New])

lemma example_sse_nonempty: "topics_nonempty example_sse"
  unfolding example_sse_def by (rule AddClient_topics_nonempty[OF topics_nonempty_New])

lemma example_sse_clients:
  "clients example_sse ''doc1'' = Some [''alice'' \<mapsto> \<lparr>ID = ''alice'', Chan = 0\<rparr>]"
  by (simp add: example_sse_def AddClient_def NewSSEManager_def Let_def)

lemma example_sse_chan: "chans example_sse 0 = Some (make_chan 5)"
  by (simp add: example_sse_def AddClient_def NewSSEManager_def Let_def)

text \<open>
  C8. \<^verbatim>\<open>Broadcast\<close> never waits for a subscriber and never panics: in a registry
  that satisfies the invariant, any run of publishes to a topic (each visiting the
  topic's subscribers in some order of the map's keys, nobody draining) returns, leaves
  the registry as it was, and leaves every subscriber of the topic with the first five
  of its queued-then-published messages: a channel of capacity 5 that is full keeps its
  contents and the message is dropped for that subscriber alone.
\<close>

theorem Broadcast_drops_when_full:
  assumes "sse_inv sm" and "clients sm docID = Some m" and "m clientID = Some client"
    and "chans sm (Chan client) = Some c"
    and "list_all (\<lambda>p. range_order (fst p) m) pubs"
  shows "\<exists>sm'. Broadcasts pubs docID sm = Inr sm' \<and> clients sm' = clients sm \<and>
           cap c = 5 \<and>
           map_option buf (chans sm' (Chan client)) = Some (take 5 (buf c @ map snd pubs))"
proof -
  have "registered sm docID clientID client" using assms(2,3) by (simp add: registered_def)
  then have "chan_ready sm (Chan client)" using assms(1) unfolding sse_inv_def by blast
  then have "cap c = 5" using assms(4) by (simp add: chan_ready_def)
  then show ?thesis using Broadcasts_queue[OF assms] by blast
qed

theorem Broadcast_drops_when_full_witness:
  "sse_inv example_sse \<and>
   clients example_sse ''doc1'' = Some [''alice'' \<mapsto> \<lparr>ID = ''alice'', Chan = 0\<rparr>] \<and>
   chans example_sse 0 = Some (make_chan 5) \<and>
   list_all (\<lambda>p. range_order (fst p) [''alice'' \<mapsto> \<lparr>ID = ''alice'', Chan = 0\<rparr>]) example_pubs \<and>
   (\<exists>sm'. Broadcasts example_pubs ''doc1'' example_sse = Inr sm' \<and>
      map_option buf (chans sm' 0) = Some [''m1'', ''m2'', ''m3'', ''m4'', ''m5''])"
proof -
  have o: "list_all (\<lambda>p. range_order (fst p) [''alice'' \<mapsto> \<lparr>ID = ''alice'', Chan = 0\<rparr>]) example_pubs"
    by (simp add: example_pubs_def range_order_def)
  have k: "[''alice'' \<mapsto> \<lparr>ID = ''alice'', Chan = 0\<rparr>] ''alice'' = Some \<lparr>ID = ''alice'', Chan = 0\<rparr>"
    by simp
  have c: "chans example_sse (Chan \<lparr>ID = ''alice'', Chan = 0\<rparr>) = Some (make_chan 5)"
    by (simp add: example_sse_chan)
  from Broadcast_drops_when_full[OF example_sse_inv example_sse_clients k c o]
  obtain sm' where s: "Broadcasts example_pubs ''doc1'' example_sse = Inr sm'"
    "map_option buf (chans sm' (Chan \<lparr>ID = ''alice'', Chan = 0\<rparr>)) =
       Some (take 5 (buf (make_chan 5) @ map snd example_pubs))"
    by blast
  have "take 5 (buf (make_chan 5) @ map snd example_pubs) = [''m1'', ''m2'', ''m3'', ''m4'', ''m5'']"
    by (simp add: make_chan_def example_pubs_def)
  with s(2) have "map_option buf (chans sm' 0) = Some [''m1'', ''m2'', ''m3'', ''m4'', ''m5'']"
    by simp
  with s(1) have "\<exists>sm'. Broadcasts example_pubs ''doc1'' example_sse = Inr sm' \<and>
      map_option buf (chans sm' 0) = Some [''m1'', ''m2'', ''m3'', ''m4'', ''m5'']"
    by blast
  then show ?thesis
    using o example_sse_inv example_sse_clients example_sse_chan by blast
qed

text \<open>
  C9. Every present topic keeps a non-empty subscriber map across \<^verbatim>\<open>AddClient\<close>,
  \<^verbatim>\<open>RemoveClient\<close> and \<^verbatim>\<open>Broadcast\<close>, none of which panics in a registry that
  satisfies the invariant. Removing a registered subscriber takes it out of its topic's
  map, removes the topic's entry when it was the last one, and a later \<^verbatim>\<open>Broadcast\<close>
  to the topic leaves the removed subscriber's (closed) channel alone.
\<close>

theorem registry_cleanup:
  assumes "sse_inv sm" and "topics_nonempty sm"
  shows "(\<forall>op sm'. sse_step op sm = Inr sm' \<longrightarrow> topics_nonempty sm') \<and>
         (\<forall>op. op_order_ok op sm \<longrightarrow> (\<exists>sm'. sse_step op sm = Inr sm' \<and> sse_inv sm')) \<and>
         (\<forall>docID clientID m cl. clients sm docID = Some m \<and> m clientID = Some cl \<longrightarrow>
            (\<exists>sm'. RemoveClient docID clientID sm = Inr sm' \<and>
               (\<forall>cl'. \<not> registered sm' docID clientID cl') \<and>
               clients sm' docID = (if dom m = {clientID} then None else Some (m(clientID := None))) \<and>
               (\<forall>ks message. op_order_ok (Publish ks docID message) sm' \<longrightarrow>
                  (\<exists>sm''. Broadcast ks docID message sm' = Inr sm'' \<and>
                     chans sm'' (Chan cl) = chans sm' (Chan cl)))))"
proof (intro conjI allI impI)
  fix op sm' assume "sse_step op sm = Inr sm'"
  then show "topics_nonempty sm'" by (rule sse_step_topics_nonempty[OF assms(2)])
next
  fix op assume "op_order_ok op sm"
  then show "\<exists>sm'. sse_step op sm = Inr sm' \<and> sse_inv sm'" by (rule sse_step_inv[OF assms(1)])
next
  fix docID clientID m cl
  assume a: "clients sm docID = Some m \<and> m clientID = Some cl"
  then have m: "clients sm docID = Some m" and k: "m clientID = Some cl" by simp_all
  have r: "registered sm docID clientID cl" using m k by (simp add: registered_def)
  obtain sm' where rm: "RemoveClient docID clientID sm = Inr sm'"
    using RemoveClient_no_panic[OF assms(1)] by blast
  have 1: "\<forall>cl'. \<not> registered sm' docID clientID cl'"
    using RemoveClient_unregisters[OF rm] by blast
  have 2: "clients sm' docID = (if dom m = {clientID} then None else Some (m(clientID := None)))"
  proof (cases "dom m = {clientID}")
    case True
    then show ?thesis using RemoveClient_last[OF rm m] by simp
  next
    case False
    have "clientID \<in> dom m" using k by auto
    from RemoveClient_others[OF rm m False this] False show ?thesis by simp
  qed
  have 3: "\<forall>ks message. op_order_ok (Publish ks docID message) sm' \<longrightarrow>
                  (\<exists>sm''. Broadcast ks docID message sm' = Inr sm'' \<and>
                     chans sm'' (Chan cl) = chans sm' (Chan cl))"
    using Broadcast_skips_removed[OF assms(1) rm r] by blast
  show "\<exists>sm'. RemoveClient docID clientID sm = Inr sm' \<and>
               (\<forall>cl'. \<not> registered sm' docID clientID cl') \<and>
               clients sm' docID = (if dom m = {clientID} then None else Some (m(clientID := None))) \<and>
               (\<forall>ks message. op_order_ok (Publish ks docID message) sm' \<longrightarrow>
                  (\<exists>sm''. Broadcast ks docID message sm' = Inr sm'' \<and>
                     chans sm'' (Chan cl) = chans sm' (Chan cl)))"
    using rm 1 2 3 by blast
qed

theorem registry_cleanup_witness:
  "sse_inv example_sse \<and> topics_nonempty example_sse \<and>
   clients example_sse ''doc1'' = Some [''alice'' \<mapsto> \<lparr>ID = ''alice'', Chan = 0\<rparr>] \<and>
   (\<exists>sm'. sse_step (Unsubscribe ''doc1'' ''alice'') example_sse = Inr sm' \<and>
      sse_inv sm' \<and> topics_nonempty sm' \<and> clients sm' ''doc1'' = None \<and>
      op_order_ok (Publish [] ''doc1'' ''m1'') sm' \<and>
      (\<exists>sm''. Broadcast [] ''doc1'' ''m1'' sm' = Inr sm'' \<and> chans sm'' 0 = chans sm' 0))"
proof -
  note t = registry_cleanup[OF example_sse_inv example_sse_nonempty]
  have k: "clients example_sse ''doc1'' = Some [''alice'' \<mapsto> \<lparr>ID = ''alice'', Chan = 0\<rparr>] \<and>
        [''alice'' \<mapsto> \<lparr>ID = ''alice'', Chan = 0\<rparr>] ''alice'' = Some \<lparr>ID = ''alice'', Chan = 0\<rparr>"
    by (simp add: example_sse_clients)
  have "op_order_ok (Unsubscribe ''doc1'' ''alice'') example_sse" by simp
  with t have "\<exists>sm'. sse_step (Unsubscribe ''doc1'' ''alice'') example_sse = Inr sm' \<and> sse_inv sm'"
    by blast
  then obtain sm1 where s1: "sse_step (Unsubscribe ''doc1'' ''alice'') example_sse = Inr sm1" "sse_inv sm1"
    by blast
  from t s1(1) have tn: "topics_nonempty sm1" by blast
  from t k obtain sm' where s': "RemoveClient ''doc1'' ''alice'' example_sse = Inr sm'"
     "clients sm' ''doc1'' = (if dom [''alice'' \<mapsto> \<lparr>ID = ''alice'', Chan = 0\<rparr>] = {''alice''} then None
         else Some ([''alice'' \<mapsto> \<lparr>ID = ''alice'', Chan = 0\<rparr>](''alice'' := None)))"
     "\<forall>ks message. op_order_ok (Publish ks ''doc1'' message) sm' \<longrightarrow>
                  (\<exists>sm''. Broadcast ks ''doc1'' message sm' = Inr sm'' \<and>
                     chans sm'' (Chan \<lparr>ID = ''alice'', Chan = 0\<rparr>) = chans sm' (Chan \<lparr>ID = ''alice'', Chan = 0\<rparr>))"
    by blast
  have e: "sm' = sm1" using s1(1) s'(1) by simp
  have n: "clients sm1 ''doc1'' = None" using s'(2) e by simp
  then have ok: "op_order_ok (Publish [] ''doc1'' ''m1'') sm1" by simp
  with s'(3) e have "\<exists>sm''. Broadcast [] ''doc1'' ''m1'' sm1 = Inr sm'' \<and> chans sm'' 0 = chans sm1 0"
    by simp
  with s1 tn n ok show ?thesis
    using example_sse_inv example_sse_nonempty example_sse_clients by blast
qed

section \<open>Regular expressions (Go's \<^verbatim>\<open>regexp\<close>, as the router uses it)\<close>

text \<open>
  The router builds a regular expression as a string, compiles it and asks for the
  leftmost match with its submatches. The library is modelled for the syntax the router
  writes or passes on: literals, punctuation escaped by a backslash, \<^verbatim>\<open>.\<close>,
  \<^verbatim>\<open>^\<close>, \<^verbatim>\<open>$\<close>, bracket classes with ranges and negation, the Perl classes
  for digits, word characters and white space, capturing groups, alternation and the
  greedy \<^verbatim>\<open>* + ?\<close>. Anything else (counted repetition, lazy quantifiers,
  \<^verbatim>\<open>(?...)\<close> groups, named classes) is reported as \<open>Unsupported\<close>; no
  statement below is about such a pattern. Strings are byte strings, as Go's are, and
  \<^verbatim>\<open>.\<close> and a class consume one byte where Go consumes one rune; on ASCII
  input the two coincide.
\<close>

datatype regex =
    Lit char
  | AnyChar
  | Class bool "(char \<times> char) list"
  | Bol
  | Eol
  | Eps
  | Seq regex regex
  | Alt regex regex
  | Star regex
  | Plus regex
  | Opt regex
  | Group nat regex

datatype compile_error =
    MissingParen
  | UnexpectedParen
  | MissingRepeatArgument
  | TrailingBackslash
  | MissingBracket
  | InvalidClassRange
  | Unsupported

text \<open>
  The parser reads the expression one character at a time. Its state holds the enclosing
  groups (each with its number, the alternatives and the items collected before it), the
  alternatives and items of the current group, the number of groups opened so far, and
  whether it is inside an escape or a bracket class.
\<close>

datatype cpend = CStart | CNone | CHave char | CDash char

datatype pmode =
    PNormal
  | PEscape
  | PClassOpen
  | PClass bool "(char \<times> char) list" cpend
  | PClassEsc bool "(char \<times> char) list" cpend

record pstate =
  frames :: "(nat \<times> regex list \<times> regex list) list"
  alts :: "regex list"
  items :: "regex list"
  fresh :: bool
  ngroups :: nat
  mode :: pmode

text \<open>
  After a backslash, an ASCII character that is neither a letter nor a digit stands for
  itself; of the escapes made of a letter only the Perl classes are modelled.
\<close>

definition is_punct :: "char \<Rightarrow> bool" where
  "is_punct c =
     (let n = (of_char c :: nat)
      in n < 128 \<and> \<not> (48 \<le> n \<and> n \<le> 57) \<and> \<not> (65 \<le> n \<and> n \<le> 90) \<and>
         \<not> (97 \<le> n \<and> n \<le> 122))"

definition perl_class :: "char \<Rightarrow> regex option" where
  "perl_class c =
     (if c = CHR ''d'' then Some (Class False [(CHR ''0'', CHR ''9'')])
      else if c = CHR ''D'' then Some (Class True [(CHR ''0'', CHR ''9'')])
      else if c = CHR ''w'' then
        Some (Class False [(CHR ''0'', CHR ''9''), (CHR ''A'', CHR ''Z''), (CHR ''_'', CHR ''_''),
                           (CHR ''a'', CHR ''z'')])
      else if c = CHR ''W'' then
        Some (Class True [(CHR ''0'', CHR ''9''), (CHR ''A'', CHR ''Z''), (CHR ''_'', CHR ''_''),
                          (CHR ''a'', CHR ''z'')])
      else if c = CHR ''s'' then
        Some (Class False [(CHR 0x09, CHR 0x0A), (CHR 0x0C, CHR 0x0D), (CHR '' '', CHR '' '')])
      else if c = CHR ''S'' then
        Some (Class True [(CHR 0x09, CHR 0x0A), (CHR 0x0C, CHR 0x0D), (CHR '' '', CHR '' '')])
      else None)"

fun seq_of :: "regex list \<Rightarrow> regex" where
  "seq_of [] = Eps"
| "seq_of [a] = a"
| "seq_of (a # rest) = Seq a (seq_of rest)"

fun alt_of :: "regex list \<Rightarrow> regex" where
  "alt_of [] = Eps"
| "alt_of [a] = a"
| "alt_of (a # rest) = Alt a (alt_of rest)"

definition close_alts :: "regex list \<Rightarrow> regex list \<Rightarrow> regex" where
  "close_alts as its = alt_of (rev (seq_of (rev its) # as))"

definition push_item :: "regex \<Rightarrow> pstate \<Rightarrow> compile_error + pstate" where
  "push_item a p = Inr (p\<lparr>items := a # items p, fresh := False, mode := PNormal\<rparr>)"

fun repeatable :: "regex \<Rightarrow> bool" where
  "repeatable (Star a) = False"
| "repeatable (Plus a) = False"
| "repeatable (Opt a) = False"
| "repeatable Bol = False"
| "repeatable Eol = False"
| "repeatable a = True"

definition repeat_last :: "(regex \<Rightarrow> regex) \<Rightarrow> pstate \<Rightarrow> compile_error + pstate" where
  "repeat_last q p =
     (case items p of
        [] \<Rightarrow> if fresh p then Inl Unsupported else Inl MissingRepeatArgument
      | a # rest \<Rightarrow> if repeatable a then Inr (p\<lparr>items := q a # rest\<rparr>) else Inl Unsupported)"

definition close_class :: "bool \<Rightarrow> (char \<times> char) list \<Rightarrow> pstate \<Rightarrow> compile_error + pstate" where
  "close_class neg rs p = push_item (Class neg (rev rs)) p"

definition class_char :: "bool \<Rightarrow> (char \<times> char) list \<Rightarrow> cpend \<Rightarrow> char \<Rightarrow> pstate \<Rightarrow> compile_error + pstate" where
  "class_char neg rs pend x p =
     (case pend of
        CStart \<Rightarrow>
          if x = CHR 0x5C then Inr (p\<lparr>mode := PClassEsc neg rs CNone\<rparr>)
          else if x = CHR ''['' then Inl Unsupported
          else Inr (p\<lparr>mode := PClass neg rs (CHave x)\<rparr>)
      | CNone \<Rightarrow>
          if x = CHR '']'' then close_class neg rs p
          else if x = CHR 0x5C then Inr (p\<lparr>mode := PClassEsc neg rs CNone\<rparr>)
          else if x = CHR ''['' then Inl Unsupported
          else Inr (p\<lparr>mode := PClass neg rs (CHave x)\<rparr>)
      | CHave c \<Rightarrow>
          if x = CHR ''-'' then Inr (p\<lparr>mode := PClass neg rs (CDash c)\<rparr>)
          else if x = CHR '']'' then close_class neg ((c, c) # rs) p
          else if x = CHR 0x5C then Inr (p\<lparr>mode := PClassEsc neg ((c, c) # rs) CNone\<rparr>)
          else if x = CHR ''['' then Inl Unsupported
          else Inr (p\<lparr>mode := PClass neg ((c, c) # rs) (CHave x)\<rparr>)
      | CDash c \<Rightarrow>
          if x = CHR '']'' then close_class neg ((CHR ''-'', CHR ''-'') # (c, c) # rs) p
          else if x = CHR 0x5C then Inr (p\<lparr>mode := PClassEsc neg rs (CDash c)\<rparr>)
          else if x = CHR ''['' then Inl Unsupported
          else if (of_char c :: nat) \<le> of_char x then Inr (p\<lparr>mode := PClass neg ((c, x) # rs) CNone\<rparr>)
          else Inl InvalidClassRange)"

definition class_escaped :: "bool \<Rightarrow> (char \<times> char) list \<Rightarrow> cpend \<Rightarrow> char \<Rightarrow> pstate \<Rightarrow> compile_error + pstate" where
  "class_escaped neg rs pend x p =
     (if \<not> is_punct x then Inl Unsupported
      else (case pend of
              CDash c \<Rightarrow>
                if (of_char c :: nat) \<le> of_char x then Inr (p\<lparr>mode := PClass neg ((c, x) # rs) CNone\<rparr>)
                else Inl InvalidClassRange
            | _ \<Rightarrow> Inr (p\<lparr>mode := PClass neg rs (CHave x)\<rparr>)))"

definition normal_char :: "char \<Rightarrow> pstate \<Rightarrow> compile_error + pstate" where
  "normal_char x p =
     (if x = CHR 0x5C then Inr (p\<lparr>mode := PEscape\<rparr>)
      else if x = CHR ''('' then
        Inr (p\<lparr>frames := (Suc (ngroups p), alts p, items p) # frames p,
               alts := [], items := [], fresh := True, ngroups := Suc (ngroups p)\<rparr>)
      else if x = CHR '')'' then
        (case frames p of
           [] \<Rightarrow> Inl UnexpectedParen
         | (n, as, its) # fs \<Rightarrow>
             Inr (p\<lparr>frames := fs, alts := as,
                    items := Group n (close_alts (alts p) (items p)) # its, fresh := False\<rparr>))
      else if x = CHR ''|'' then
        Inr (p\<lparr>alts := seq_of (rev (items p)) # alts p, items := [], fresh := False\<rparr>)
      else if x = CHR ''*'' then repeat_last Star p
      else if x = CHR ''+'' then repeat_last Plus p
      else if x = CHR ''?'' then repeat_last Opt p
      else if x = CHR ''['' then Inr (p\<lparr>mode := PClassOpen\<rparr>)
      else if x = CHR ''.'' then push_item AnyChar p
      else if x = CHR ''^'' then push_item Bol p
      else if x = CHR ''$'' then push_item Eol p
      else if x = CHR ''{'' then Inl Unsupported
      else push_item (Lit x) p)"

definition parse_char :: "char \<Rightarrow> pstate \<Rightarrow> compile_error + pstate" where
  "parse_char x p =
     (case mode p of
        PNormal \<Rightarrow> normal_char x p
      | PEscape \<Rightarrow>
          if is_punct x then push_item (Lit x) p
          else (case perl_class x of Some cl \<Rightarrow> push_item cl p | None \<Rightarrow> Inl Unsupported)
      | PClassOpen \<Rightarrow>
          if x = CHR ''^'' then Inr (p\<lparr>mode := PClass True [] CStart\<rparr>)
          else class_char False [] CStart x p
      | PClass neg rs pend \<Rightarrow> class_char neg rs pend x p
      | PClassEsc neg rs pend \<Rightarrow> class_escaped neg rs pend x p)"

fun parse_chars :: "string \<Rightarrow> pstate \<Rightarrow> compile_error + pstate" where
  "parse_chars [] p = Inr p"
| "parse_chars (x # xs) p =
     (case parse_char x p of Inl e \<Rightarrow> Inl e | Inr p' \<Rightarrow> parse_chars xs p')"

record Regexp =
  prog :: regex
  numSubexp :: nat

definition regexp_Compile :: "string \<Rightarrow> compile_error + Regexp" where
  "regexp_Compile expr =
     (case parse_chars expr \<lparr>frames = [], alts = [], items = [], fresh = False, ngroups = 0,
                               mode = PNormal\<rparr> of
        Inl e \<Rightarrow> Inl e
      | Inr p \<Rightarrow>
          (case mode p of
             PNormal \<Rightarrow>
               if frames p = [] then Inr \<lparr>prog = close_alts (alts p) (items p), numSubexp = ngroups p\<rparr>
               else Inl MissingParen
           | PEscape \<Rightarrow> Inl TrailingBackslash
           | _ \<Rightarrow> Inl MissingBracket))"

text \<open>
  Matching is backtracking search in the library's preference order (leftmost-first):
  a match state is the position, the rest of the input and the submatches recorded so far,
  and each expression maps a state to the list of states it can end in, most preferred
  first. An iteration of \<^verbatim>\<open>*\<close> must consume input; the counter of \<open>star_iter\<close> is
  the length of the remaining input, which such iterations cannot exceed
  (\<open>star_iter_fuel\<close>).
\<close>

type_synonym mstate = "nat \<times> string \<times> (nat \<times> string) list"

definition in_ranges :: "char \<Rightarrow> (char \<times> char) list \<Rightarrow> bool" where
  "in_ranges x rs = list_ex (\<lambda>r. (of_char (fst r) :: nat) \<le> of_char x \<and> (of_char x :: nat) \<le> of_char (snd r)) rs"

definition step_char :: "(char \<Rightarrow> bool) \<Rightarrow> mstate \<Rightarrow> mstate list" where
  "step_char P st =
     (case st of (i, s, caps) \<Rightarrow>
        (case s of [] \<Rightarrow> [] | x # xs \<Rightarrow> if P x then [(Suc i, xs, caps)] else []))"

primrec star_iter :: "(mstate \<Rightarrow> mstate list) \<Rightarrow> nat \<Rightarrow> mstate \<Rightarrow> mstate list" where
  "star_iter f 0 st = [st]"
| "star_iter f (Suc n) st =
     concat (map (\<lambda>st'. if length (fst (snd st')) < length (fst (snd st)) then star_iter f n st' else [])
               (f st)) @ [st]"

fun rmatch :: "regex \<Rightarrow> mstate \<Rightarrow> mstate list" where
  "rmatch (Lit c) st = step_char (\<lambda>x. x = c) st"
| "rmatch AnyChar st = step_char (\<lambda>x. x \<noteq> CHR 0x0A) st"
| "rmatch (Class neg rs) st = step_char (\<lambda>x. in_ranges x rs \<noteq> neg) st"
| "rmatch Bol st = (if fst st = 0 then [st] else [])"
| "rmatch Eol st = (if fst (snd st) = [] then [st] else [])"
| "rmatch Eps st = [st]"
| "rmatch (Seq a b) st = concat (map (rmatch b) (rmatch a st))"
| "rmatch (Alt a b) st = rmatch a st @ rmatch b st"
| "rmatch (Star a) st = star_iter (rmatch a) (length (fst (snd st))) st"
| "rmatch (Plus a) st =
     concat (map (\<lambda>st'. star_iter (rmatch a) (length (fst (snd st'))) st') (rmatch a st))"
| "rmatch (Opt a) st = rmatch a st @ [st]"
| "rmatch (Group n a) st =
     map (\<lambda>st'. (fst st', fst (snd st'), (n, take (fst st' - fst st) (fst (snd st))) # snd (snd st')))
       (rmatch a st)"

text \<open>
  \<^verbatim>\<open>FindStringSubmatch\<close>: the match starting at the leftmost possible position,
  as the list of the whole match followed by one entry per group (empty for a group that
  did not take part); \<open>None\<close> is Go's \<^verbatim>\<open>nil\<close>.
\<close>

fun find_from :: "regex \<Rightarrow> nat \<Rightarrow> string \<Rightarrow> (nat \<times> mstate) option" where
  "find_from re i s =
     (case rmatch re (i, s, []) of
        m # _ \<Rightarrow> Some (i, m)
      | [] \<Rightarrow> (case s of [] \<Rightarrow> None | _ # s' \<Rightarrow> find_from re (Suc i) s'))"

definition FindStringSubmatch :: "Regexp \<Rightarrow> string \<Rightarrow> string list option" where
  "FindStringSubmatch re s =
     (case find_from (prog re) 0 s of
        None \<Rightarrow> None
      | Some (i, j, rest, caps) \<Rightarrow>
          Some (take (j - i) (drop i s) #
                map (\<lambda>k. case map_of caps k of None \<Rightarrow> [] | Some v \<Rightarrow> v) [1..<Suc (numSubexp re)]))"

text \<open>
  \<^verbatim>\<open>regexp.QuoteMeta\<close> puts a backslash before a backslash and before each of
  \<^verbatim>\<open>.+*?()|[]{}^$\<close>.
\<close>

definition QuoteMeta :: "string \<Rightarrow> string" where
  "QuoteMeta s = concat (map (\<lambda>c. if c = CHR 0x5C \<or> c \<in> set ''.+*?()|[]{}^$'' then [CHR 0x5C, c] else [c]) s)"

lemma concat_map_Nil: "(\<And>x. x \<in> set xs \<Longrightarrow> f x = []) \<Longrightarrow> concat (map f xs) = []"
  by (induction xs) auto

lemma star_iter_fuel:
  "length (fst (snd st)) \<le> n \<Longrightarrow> star_iter f n st = star_iter f (length (fst (snd st))) st"
proof (induction n arbitrary: st rule: less_induct)
  case (less n)
  let ?L = "length (fst (snd st))"
  let ?g = "\<lambda>k st'. if length (fst (snd st')) < ?L then star_iter f k st' else []"
  have inner: "?g k st' = ?g k' st'" if "?L \<le> Suc k" "?L \<le> Suc k'" "k < n" "k' < n" for k k' st'
  proof (cases "length (fst (snd st')) < ?L")
    case True
    then have "length (fst (snd st')) \<le> k" "length (fst (snd st')) \<le> k'" using that by auto
    then have "star_iter f k st' = star_iter f (length (fst (snd st'))) st'"
      "star_iter f k' st' = star_iter f (length (fst (snd st'))) st'"
      using less.IH that by blast+
    then show ?thesis by simp
  next
    case False
    then show ?thesis by simp
  qed
  show ?case
  proof (cases n)
    case 0
    then show ?thesis using less.prems by simp
  next
    case (Suc k)
    show ?thesis
    proof (cases ?L)
      case 0
      have "concat (map (?g k) (f st)) = []"
        by (rule concat_map_Nil) (simp add: 0)
      then show ?thesis using Suc 0 by simp
    next
      case (Suc l)
      have "l < n" "k < n" using Suc \<open>n = Suc k\<close> less.prems by auto
      then have "?g k st' = ?g l st'" for st'
        using inner[of k l st'] Suc \<open>n = Suc k\<close> less.prems by auto
      then have "?g k = ?g l" by (rule ext)
      then have "concat (map (?g k) (f st)) @ [st] = concat (map (?g l) (f st)) @ [st]"
        by (rule arg_cong)
      then show ?thesis unfolding Suc \<open>n = Suc k\<close> star_iter.simps by (simp only: Suc)
    qed
  qed
qed

section \<open>Router (router.go)\<close>

text \<open>
  \<^verbatim>\<open>strings.Split(pattern, "/")\<close>, \<^verbatim>\<open>strings.Index(paramName, "(")\<close> (with
  \<open>None\<close> for -1) and \<^verbatim>\<open>strings.HasPrefix\<close>.
\<close>

fun Split_on :: "char \<Rightarrow> string \<Rightarrow> string list" where
  "Split_on sep [] = [[]]"
| "Split_on sep (x # xs) =
     (if x = sep then [] # Split_on sep xs
      else (case Split_on sep xs of [] \<Rightarrow> [[x]] | p # ps \<Rightarrow> (x # p) # ps))"

fun Index_char :: "string \<Rightarrow> char \<Rightarrow> nat option" where
  "Index_char [] c = None"
| "Index_char (x # xs) c = (if x = c then Some 0 else map_option Suc (Index_char xs c))"

definition HasPrefix :: "string \<Rightarrow> string \<Rightarrow> bool" where
  "HasPrefix s p = (take (length p) s = p)"

text \<open>
  A route, the router and the route builder; \<open>'h\<close> is the type of handlers, and a
  middleware is a function from handlers to handlers. The builder's fields
  \<^verbatim>\<open>method\<close>, \<^verbatim>\<open>path\<close> and \<^verbatim>\<open>handler\<close> carry the prefix \<open>rb_\<close>; the
  builder's pointer to the router is the router argument of \<open>Handler\<close>.
\<close>

record 'h route =
  handler :: 'h
  pattern :: string
  before :: "('h \<Rightarrow> 'h) list"
  after :: "('h \<Rightarrow> 'h) list"
  regex :: Regexp
  paramNames :: "string list"

record 'h Router =
  routes :: "string \<rightharpoonup> (string \<rightharpoonup> 'h route)"

definition newRouter :: "'h Router" where
  "newRouter = \<lparr>routes = Map.empty\<rparr>"

record 'h RouteBuilder =
  rb_method :: string
  rb_path :: string
  rb_handler :: 'h
  beforeMW :: "('h \<Rightarrow> 'h) list"
  afterMW :: "('h \<Rightarrow> 'h) list"

definition AddRoute :: "string \<Rightarrow> string \<Rightarrow> 'h \<Rightarrow> 'h RouteBuilder" where
  "AddRoute method path h =
     \<lparr>rb_method = method, rb_path = path, rb_handler = h, beforeMW = [], afterMW = []\<rparr>"

definition Before :: "('h \<Rightarrow> 'h) list \<Rightarrow> 'h RouteBuilder \<Rightarrow> 'h RouteBuilder" where
  "Before mw rb = rb\<lparr>beforeMW := beforeMW rb @ mw\<rparr>"

definition After :: "('h \<Rightarrow> 'h) list \<Rightarrow> 'h RouteBuilder \<Rightarrow> 'h RouteBuilder" where
  "After mw rb = rb\<lparr>afterMW := afterMW rb @ mw\<rparr>"

text \<open>
  \<^verbatim>\<open>Handler()\<close>: one step of the loop over the parts of the pattern, the regular
  expression and parameter names for a whole pattern, and the registration itself. A
  pattern whose expression does not compile panics.
\<close>

definition add_part :: "string \<Rightarrow> string \<times> string list \<Rightarrow> string \<times> string list" where
  "add_part part acc =
     (case acc of (rePattern, names) \<Rightarrow>
        if HasPrefix part '':'' then
          (let paramName = drop 1 part
           in (case Index_char paramName (CHR ''('') of
                 Some idx \<Rightarrow> (rePattern @ ''/'' @ drop idx paramName, names @ [take idx paramName])
               | None \<Rightarrow> (rePattern @ ''/'' @ ''([^/]+)'', names @ [paramName])))
        else if part = ''*'' then (rePattern @ ''/(.*)'', names @ [''wildcard''])
        else if part \<noteq> [] then (rePattern @ ''/'' @ QuoteMeta part, names)
        else (rePattern, names))"

definition route_regex :: "string \<Rightarrow> string \<times> string list" where
  "route_regex pat =
     (case fold add_part (Split_on (CHR ''/'') pat) (''^'', []) of
        (rePattern, names) \<Rightarrow> (rePattern @ ''/?$'', names))"

datatype route_panic = InvalidRouteRegex string compile_error

definition Handler :: "'h RouteBuilder \<Rightarrow> 'h Router \<Rightarrow> route_panic + 'h Router" where
  "Handler rb r =
     (case route_regex (rb_path rb) of (rePattern, names) \<Rightarrow>
        (case regexp_Compile rePattern of
           Inl err \<Rightarrow> Inl (InvalidRouteRegex (rb_path rb) err)
         | Inr compiledRegex \<Rightarrow>
             (let methodRoutes = (case routes r (rb_method rb) of None \<Rightarrow> Map.empty | Some m \<Rightarrow> m)
              in Inr (r\<lparr>routes := (routes r)(rb_method rb \<mapsto>
                    methodRoutes(rb_path rb \<mapsto>
                      \<lparr>handler = rb_handler rb, pattern = rb_path rb, before = beforeMW rb,
                       after = afterMW rb, regex = compiledRegex, paramNames = names\<rparr>))\<rparr>))))"

text \<open>
  \<^verbatim>\<open>applyMiddleware\<close> (middleware.go) applies the list from its last element to its
  first, so the first middleware ends up outermost.
\<close>

fun applyMiddleware :: "'h \<Rightarrow> ('h \<Rightarrow> 'h) list \<Rightarrow> 'h" where
  "applyMiddleware h [] = h"
| "applyMiddleware h (mw # rest) = mw (applyMiddleware h rest)"

text \<open>
  \<^verbatim>\<open>MatchRoute\<close>. The loop \<^verbatim>\<open>for pattern, rt := range methodRoutes\<close> visits the
  map in an order Go leaves open (and changes from one loop to the next); the order is the
  parameter \<open>ks\<close>. The loop state is the best handler, its parameters and
  \<^verbatim>\<open>longestMatchLen\<close>, which starts at -1. Both results are \<^verbatim>\<open>nil\<close> (\<open>None\<close>)
  when nothing matched.
\<close>

fun bind_params :: "nat \<Rightarrow> string list \<Rightarrow> string list \<Rightarrow> (string \<rightharpoonup> string) \<Rightarrow> (string \<rightharpoonup> string)" where
  "bind_params i [] matches params = params"
| "bind_params i (name # names) matches params =
     bind_params (Suc i) names matches
       (if i + 1 < length matches then params(name \<mapsto> matches ! (i + 1)) else params)"

type_synonym 'h best = "'h option \<times> (string \<rightharpoonup> string) option \<times> int"

definition match_step :: "string \<Rightarrow> 'h route \<Rightarrow> string \<Rightarrow> 'h best \<Rightarrow> 'h best" where
  "match_step pat rt requestPath b =
     (case FindStringSubmatch (regex rt) requestPath of
        None \<Rightarrow> b
      | Some matches \<Rightarrow>
          (let params = bind_params 0 (paramNames rt) matches Map.empty
           in if int (length pat) > snd (snd b)
              then (Some (applyMiddleware (applyMiddleware (handler rt) (after rt)) (before rt)),
                    Some params, int (length pat))
              else b))"

fun match_loop :: "string list \<Rightarrow> (string \<rightharpoonup> 'h route) \<Rightarrow> string \<Rightarrow> 'h best \<Rightarrow> 'h best" where
  "match_loop [] methodRoutes requestPath b = b"
| "match_loop (pat # rest) methodRoutes requestPath b =
     (case methodRoutes pat of
        None \<Rightarrow> match_loop rest methodRoutes requestPath b
      | Some rt \<Rightarrow> match_loop rest methodRoutes requestPath (match_step pat rt requestPath b))"

definition MatchRoute ::
  "'h Router \<Rightarrow> string list \<Rightarrow> string \<Rightarrow> string \<Rightarrow> 'h option \<times> (string \<rightharpoonup> string) option" where
  "MatchRoute r ks method requestPath =
     (case routes r method of
        None \<Rightarrow> (None, None)
      | Some methodRoutes \<Rightarrow>
          (case match_loop ks methodRoutes requestPath (None, None, - 1) of
             (bestMatchHandler, bestMatchParams, longestMatchLen) \<Rightarrow>
               (bestMatchHandler, bestMatchParams)))"


subsection \<open>What the loop selects\<close>

text \<open>
  \<open>route_matches\<close>: the route stored under a key matches the path;
  \<open>route_result\<close>: what \<^verbatim>\<open>MatchRoute\<close> returns when that route is the selected one.
\<close>

definition route_matches :: "(string \<rightharpoonup> 'h route) \<Rightarrow> string \<Rightarrow> string \<Rightarrow> bool" where
  "route_matches m requestPath k =
     (case m k of None \<Rightarrow> False | Some rt \<Rightarrow> FindStringSubmatch (regex rt) requestPath \<noteq> None)"

definition route_result ::
  "(string \<rightharpoonup> 'h route) \<Rightarrow> string \<Rightarrow> string \<Rightarrow> 'h option \<times> (string \<rightharpoonup> string) option" where
  "route_result m requestPath k =
     (case m k of
        None \<Rightarrow> (None, None)
      | Some rt \<Rightarrow>
          (case FindStringSubmatch (regex rt) requestPath of
             None \<Rightarrow> (None, None)
           | Some matches \<Rightarrow>
               (Some (applyMiddleware (applyMiddleware (handler rt) (after rt)) (before rt)),
                Some (bind_params 0 (paramNames rt) matches Map.empty))))"

definition chosen :: "(string \<rightharpoonup> 'h route) \<Rightarrow> string \<Rightarrow> string \<Rightarrow> 'h best" where
  "chosen m requestPath k =
     (fst (route_result m requestPath k), snd (route_result m requestPath k), int (length k))"

lemma match_step_take:
  "m k = Some rt \<Longrightarrow> route_matches m path k \<Longrightarrow> snd (snd b) < int (length k) \<Longrightarrow>
   match_step k rt path b = chosen m path k"
  by (auto simp: match_step_def route_matches_def route_result_def chosen_def Let_def
           split: option.splits)

lemma match_step_keep:
  "m k = Some rt \<Longrightarrow> \<not> (route_matches m path k \<and> snd (snd b) < int (length k)) \<Longrightarrow>
   match_step k rt path b = b"
  by (auto simp: match_step_def route_matches_def Let_def split: option.splits)

lemma match_loop_cases:
  "(match_loop ks m path b = b \<and>
      (\<forall>k \<in> set ks. route_matches m path k \<longrightarrow> int (length k) \<le> snd (snd b))) \<or>
   (\<exists>k \<in> set ks. route_matches m path k \<and> snd (snd b) < int (length k) \<and>
      match_loop ks m path b = chosen m path k \<and>
      (\<forall>k' \<in> set ks. route_matches m path k' \<longrightarrow> length k' \<le> length k))"
proof (induction ks arbitrary: b)
  case Nil
  then show ?case by simp
next
  case (Cons k ks)
  show ?case
  proof (cases "route_matches m path k \<and> snd (snd b) < int (length k)")
    case True
    then obtain rt where rt: "m k = Some rt"
      by (auto simp: route_matches_def split: option.splits)
    have st: "match_step k rt path b = chosen m path k"
      using match_step_take[of m k rt path b] rt True by blast
    have L: "snd (snd (chosen m path k)) = int (length k)" by (simp add: chosen_def)
    have loop: "match_loop (k # ks) m path b = match_loop ks m path (chosen m path k)"
      using rt st by simp
    from Cons.IH[of "chosen m path k"] show ?thesis
    proof (elim disjE conjE bexE)
      assume a: "match_loop ks m path (chosen m path k) = chosen m path k"
        and b: "\<forall>k' \<in> set ks. route_matches m path k' \<longrightarrow> int (length k') \<le> snd (snd (chosen m path k))"
      have "\<forall>k' \<in> set (k # ks). route_matches m path k' \<longrightarrow> length k' \<le> length k"
        using b L by auto
      then show ?thesis using True a loop by auto
    next
      fix k2 assume k2: "k2 \<in> set ks" "route_matches m path k2"
        "snd (snd (chosen m path k)) < int (length k2)"
        "match_loop ks m path (chosen m path k) = chosen m path k2"
        "\<forall>k' \<in> set ks. route_matches m path k' \<longrightarrow> length k' \<le> length k2"
      have lt: "length k < length k2" using k2(3) L by simp
      have "\<forall>k' \<in> set (k # ks). route_matches m path k' \<longrightarrow> length k' \<le> length k2"
        using k2(5) lt by auto
      moreover have "snd (snd b) < int (length k2)" using True lt by linarith
      moreover have "k2 \<in> set (k # ks)" using k2(1) by simp
      ultimately show ?thesis using k2(2,4) loop by metis
    qed
  next
    case False
    have loop: "match_loop (k # ks) m path b = match_loop ks m path b"
    proof (cases "m k")
      case None
      then show ?thesis by simp
    next
      case (Some rt)
      then show ?thesis using match_step_keep[of m k rt path b] False by simp
    qed
    from Cons.IH[of b] show ?thesis
    proof (elim disjE conjE bexE)
      assume a: "match_loop ks m path b = b"
        and b: "\<forall>k' \<in> set ks. route_matches m path k' \<longrightarrow> int (length k') \<le> snd (snd b)"
      have "\<forall>k' \<in> set (k # ks). route_matches m path k' \<longrightarrow> int (length k') \<le> snd (snd b)"
        using b False by auto
      then show ?thesis using a loop by simp
    next
      fix k2 assume k2: "k2 \<in> set ks" "route_matches m path k2"
        "snd (snd b) < int (length k2)"
        "match_loop ks m path b = chosen m path k2"
        "\<forall>k' \<in> set ks. route_matches m path k' \<longrightarrow> length k' \<le> length k2"
      have "route_matches m path k \<longrightarrow> length k \<le> length k2" using False k2(3) by auto
      then have "\<forall>k' \<in> set (k # ks). route_matches m path k' \<longrightarrow> length k' \<le> length k2"
        using k2(5) by auto
      moreover have "k2 \<in> set (k # ks)" using k2(1) by simp
      ultimately show ?thesis using k2(2,3,4) loop by metis
    qed
  qed
qed

lemma route_matches_dom: "route_matches m path k \<Longrightarrow> k \<in> dom m"
  by (auto simp: route_matches_def split: option.splits)

lemma MatchRoute_selects:
  assumes m: "routes r method = Some m" and ord: "range_order ks m"
    and ex: "route_matches m path k0"
  shows "\<exists>k. route_matches m path k \<and> MatchRoute r ks method path = route_result m path k \<and>
           (\<forall>k'. route_matches m path k' \<longrightarrow> length k' \<le> length k)"
proof -
  have ks: "set ks = dom m" using ord by (simp add: range_order_def)
  have k0: "k0 \<in> set ks" using ex ks route_matches_dom by blast
  from match_loop_cases[of ks m path "(None, None, - 1)"] show ?thesis
  proof (elim disjE conjE bexE)
    assume "\<forall>k \<in> set ks. route_matches m path k \<longrightarrow> int (length k) \<le> snd (snd (None, None, - 1))"
    with k0 ex have "int (length k0) \<le> - 1" by auto
    then show ?thesis by simp
  next
    fix k assume k: "k \<in> set ks" "route_matches m path k"
      "match_loop ks m path (None, None, - 1) = chosen m path k"
      "\<forall>k' \<in> set ks. route_matches m path k' \<longrightarrow> length k' \<le> length k"
    have "MatchRoute r ks method path = route_result m path k"
      using m k(3) by (simp add: MatchRoute_def chosen_def)
    moreover have "\<forall>k'. route_matches m path k' \<longrightarrow> length k' \<le> length k"
      using k(4) ks route_matches_dom by blast
    ultimately show ?thesis using k(2) by blast
  qed
qed

lemma MatchRoute_none:
  assumes "case routes r method of None \<Rightarrow> True | Some m \<Rightarrow> (\<forall>k \<in> set ks. \<not> route_matches m path k)"
  shows "MatchRoute r ks method path = (None, None)"
proof (cases "routes r method")
  case None
  then show ?thesis by (simp add: MatchRoute_def)
next
  case (Some m)
  with assms have no: "\<forall>k \<in> set ks. \<not> route_matches m path k" by simp
  from match_loop_cases[of ks m path "(None, None, - 1)"] no
  have "match_loop ks m path (None, None, - 1) = (None, None, - 1)" by blast
  then show ?thesis using Some by (simp add: MatchRoute_def)
qed


text \<open>
  An admissible visiting order for a method's routes. A longest match is a matching route
  whose pattern no matching route's pattern exceeds in length; \<open>longest_agree\<close>: all
  longest matches give the same result; \<open>longest_unique\<close>: there is at most one;
  \<open>order_independent\<close>: every two admissible visiting orders give the same result.
\<close>

definition valid_order :: "'h Router \<Rightarrow> string \<Rightarrow> string list \<Rightarrow> bool" where
  "valid_order r method ks = (case routes r method of None \<Rightarrow> True | Some m \<Rightarrow> range_order ks m)"

definition longest_match :: "(string \<rightharpoonup> 'h route) \<Rightarrow> string \<Rightarrow> string \<Rightarrow> bool" where
  "longest_match m requestPath k =
     (route_matches m requestPath k \<and>
      (\<forall>k'. route_matches m requestPath k' \<longrightarrow> length k' \<le> length k))"

definition longest_agree :: "'h Router \<Rightarrow> string \<Rightarrow> string \<Rightarrow> bool" where
  "longest_agree r method requestPath =
     (case routes r method of
        None \<Rightarrow> True
      | Some m \<Rightarrow>
          (\<forall>k k'. longest_match m requestPath k \<and> longest_match m requestPath k' \<longrightarrow>
                   route_result m requestPath k = route_result m requestPath k'))"

definition longest_unique :: "'h Router \<Rightarrow> string \<Rightarrow> string \<Rightarrow> bool" where
  "longest_unique r method requestPath =
     (case routes r method of
        None \<Rightarrow> True
      | Some m \<Rightarrow>
          (\<forall>k k'. longest_match m requestPath k \<and> longest_match m requestPath k' \<longrightarrow> k = k'))"

definition order_independent :: "'h Router \<Rightarrow> string \<Rightarrow> string \<Rightarrow> bool" where
  "order_independent r method requestPath =
     (\<forall>ks1 ks2. valid_order r method ks1 \<and> valid_order r method ks2 \<longrightarrow>
        MatchRoute r ks1 method requestPath = MatchRoute r ks2 method requestPath)"

text \<open>
  Registration of several routes in turn, as \<^verbatim>\<open>main.go\<close> does with
  \<^verbatim>\<open>app.GET(...).Handler()\<close>.
\<close>

fun register :: "'h RouteBuilder list \<Rightarrow> 'h Router \<Rightarrow> route_panic + 'h Router" where
  "register [] r = Inr r"
| "register (rb # rest) r =
     (case Handler rb r of
        Inl p \<Rightarrow> Inl p
      | Inr r' \<Rightarrow> register rest r')"

subsection \<open>The routes \<^verbatim>\<open>/docs/new\<close> and \<^verbatim>\<open>/docs/:id\<close>\<close>

definition lits :: "string \<Rightarrow> regex list" where
  "lits s = map Lit s"

definition re_docs_new :: Regexp where
  "re_docs_new = \<lparr>prog = seq_of (Bol # lits ''/docs/new'' @ [Opt (Lit (CHR ''/'')), Eol]), numSubexp = 0\<rparr>"

definition re_docs_id :: Regexp where
  "re_docs_id =
     \<lparr>prog = seq_of (Bol # lits ''/docs/'' @
               [Group 1 (Plus (Class True [(CHR ''/'', CHR ''/'')])), Opt (Lit (CHR ''/'')), Eol]),
      numSubexp = 1\<rparr>"

lemma route_regex_docs_new: "route_regex ''/docs/new'' = (''^/docs/new/?$'', [])"
  by code_simp

lemma route_regex_docs_id: "route_regex ''/docs/:id'' = (''^/docs/([^/]+)/?$'', [''id''])"
  by code_simp

lemma compile_docs_new: "regexp_Compile ''^/docs/new/?$'' = Inr re_docs_new"
  by code_simp

lemma compile_docs_id: "regexp_Compile ''^/docs/([^/]+)/?$'' = Inr re_docs_id"
  by code_simp

lemma find_docs_new: "FindStringSubmatch re_docs_new ''/docs/new'' = Some [''/docs/new'']"
  by code_simp

lemma find_docs_id: "FindStringSubmatch re_docs_id ''/docs/new'' = Some [''/docs/new'', ''new'']"
  by code_simp

definition route_docs_new :: "'h \<Rightarrow> 'h route" where
  "route_docs_new h =
     \<lparr>handler = h, pattern = ''/docs/new'', before = [], after = [], regex = re_docs_new,
      paramNames = []\<rparr>"

definition route_docs_id :: "'h \<Rightarrow> 'h route" where
  "route_docs_id h =
     \<lparr>handler = h, pattern = ''/docs/:id'', before = [], after = [], regex = re_docs_id,
      paramNames = [''id'']\<rparr>"

definition docs_routes :: "'h \<Rightarrow> 'h \<Rightarrow> (string \<rightharpoonup> 'h route)" where
  "docs_routes h_new h_id =
     [''/docs/:id'' \<mapsto> route_docs_id h_id, ''/docs/new'' \<mapsto> route_docs_new h_new]"

definition docs_router :: "'h \<Rightarrow> 'h \<Rightarrow> 'h Router" where
  "docs_router h_new h_id = \<lparr>routes = [''GET'' \<mapsto> docs_routes h_new h_id]\<rparr>"

lemma register_docs:
  "register [AddRoute ''GET'' ''/docs/:id'' h_id, AddRoute ''GET'' ''/docs/new'' h_new] newRouter =
     Inr (docs_router h_new h_id)"
  by (simp add: Handler_def AddRoute_def route_regex_docs_new route_regex_docs_id
        compile_docs_new compile_docs_id newRouter_def docs_router_def docs_routes_def
        route_docs_new_def route_docs_id_def)

lemma register_docs_rev:
  "register [AddRoute ''GET'' ''/docs/new'' h_new, AddRoute ''GET'' ''/docs/:id'' h_id] newRouter =
     Inr (docs_router h_new h_id)"
  by (simp add: Handler_def AddRoute_def route_regex_docs_new route_regex_docs_id
        compile_docs_new compile_docs_id newRouter_def docs_router_def docs_routes_def
        route_docs_new_def route_docs_id_def fun_upd_twist)

lemma MatchRoute_docs_new_first:
  "MatchRoute (docs_router h_new h_id) [''/docs/new'', ''/docs/:id''] ''GET'' ''/docs/new'' =
     (Some h_new, Some Map.empty)"
  by (simp add: MatchRoute_def docs_router_def docs_routes_def route_docs_new_def
        route_docs_id_def match_step_def find_docs_new find_docs_id)

lemma MatchRoute_docs_id_first:
  "MatchRoute (docs_router h_new h_id) [''/docs/:id'', ''/docs/new''] ''GET'' ''/docs/new'' =
     (Some h_id, Some [''id'' \<mapsto> ''new''])"
  by (simp add: MatchRoute_def docs_router_def docs_routes_def route_docs_new_def
        route_docs_id_def match_step_def find_docs_new find_docs_id)


subsection \<open>Independence of the visiting order\<close>

lemma MatchRoute_first_longest:
  assumes m: "routes r method = Some m" and top: "longest_match m path k"
  shows "MatchRoute r (k # ks) method path = route_result m path k"
proof -
  obtain rt where rt: "m k = Some rt"
    using top by (auto simp: longest_match_def route_matches_def split: option.splits)
  have mt: "route_matches m path k" using top by (simp add: longest_match_def)
  have st: "match_step k rt path (None, None, - 1) = chosen m path k"
    using match_step_take[of m k rt path "(None, None, - 1)"] rt mt by simp
  have L: "snd (snd (chosen m path k)) = int (length k)" by (simp add: chosen_def)
  from match_loop_cases[of ks m path "chosen m path k"]
  have "match_loop ks m path (chosen m path k) = chosen m path k"
  proof (elim disjE conjE bexE)
    assume "match_loop ks m path (chosen m path k) = chosen m path k"
    then show ?thesis .
  next
    fix k2 assume "route_matches m path k2" "snd (snd (chosen m path k)) < int (length k2)"
    then have "length k < length k2" "length k2 \<le> length k"
      using L top by (auto simp: longest_match_def)
    then show ?thesis by simp
  qed
  then have "match_loop (k # ks) m path (None, None, - 1) = chosen m path k"
    using rt st by simp
  then show ?thesis using m by (simp add: MatchRoute_def chosen_def)
qed

lemma MatchRoute_selects_longest:
  assumes m: "routes r method = Some m" and ord: "range_order ks m"
    and ex: "route_matches m path k0"
  shows "\<exists>k. longest_match m path k \<and> MatchRoute r ks method path = route_result m path k"
proof -
  from MatchRoute_selects[OF m ord ex] obtain k where
    k: "route_matches m path k" "MatchRoute r ks method path = route_result m path k"
       "\<forall>k'. route_matches m path k' \<longrightarrow> length k' \<le> length k" by blast
  have "longest_match m path k" unfolding longest_match_def using k(1,3) by (rule conjI)
  with k(2) show ?thesis by blast
qed

lemma longest_agree_independent:
  assumes ag: "longest_agree r method path"
    and o1: "valid_order r method ks1" and o2: "valid_order r method ks2"
  shows "MatchRoute r ks1 method path = MatchRoute r ks2 method path"
proof (cases "routes r method")
  case None
  then show ?thesis by (simp add: MatchRoute_def)
next
  case (Some m)
  have r1: "range_order ks1 m" and r2: "range_order ks2 m"
    using o1 o2 Some by (simp_all add: valid_order_def)
  show ?thesis
  proof (cases "\<exists>k0. route_matches m path k0")
    case True
    then obtain k0 where k0: "route_matches m path k0" by blast
    from MatchRoute_selects_longest[OF Some r1 k0] obtain k1 where
      k1: "longest_match m path k1" "MatchRoute r ks1 method path = route_result m path k1" by blast
    from MatchRoute_selects_longest[OF Some r2 k0] obtain k2 where
      k2: "longest_match m path k2" "MatchRoute r ks2 method path = route_result m path k2" by blast
    have all: "\<forall>k k'. longest_match m path k \<and> longest_match m path k' \<longrightarrow>
                   route_result m path k = route_result m path k'"
      using ag unfolding longest_agree_def Some by simp
    have "route_result m path k1 = route_result m path k2"
      by (rule all[rule_format, OF conjI[OF k1(1) k2(1)]])
    then show ?thesis using k1(2) k2(2) by simp
  next
    case False
    then have "\<And>ks. MatchRoute r ks method path = (None, None)"
      using MatchRoute_none[where r=r and path=path] Some by simp
    then show ?thesis by simp
  qed
qed

lemma range_order_move_front:
  assumes "range_order ks m" and "k \<in> dom m"
  shows "range_order (k # remove1 k ks) m"
  using assms unfolding range_order_def by (auto simp: set_remove1_eq)

lemma independent_longest_agree:
  assumes ind: "order_independent r method path" and v: "valid_order r method ks"
  shows "longest_agree r method path"
proof (cases "routes r method")
  case None
  then show ?thesis by (simp add: longest_agree_def)
next
  case (Some m)
  have ord: "range_order ks m" using v Some by (simp add: valid_order_def)
  have "route_result m path k = route_result m path k'"
    if t: "longest_match m path k \<and> longest_match m path k'" for k k'
  proof -
    have d: "k \<in> dom m" "k' \<in> dom m"
      using t by (auto simp: longest_match_def dest: route_matches_dom)
    have v1: "valid_order r method (k # remove1 k ks)"
      and v2: "valid_order r method (k' # remove1 k' ks)"
      using range_order_move_front[OF ord] d Some by (simp_all add: valid_order_def)
    have "MatchRoute r (k # remove1 k ks) method path = MatchRoute r (k' # remove1 k' ks) method path"
      using ind v1 v2 unfolding order_independent_def by blast
    then show ?thesis
      using MatchRoute_first_longest[OF Some, of path] t by simp
  qed
  then show ?thesis using Some by (simp add: longest_agree_def)
qed

lemma longest_unique_agree: "longest_unique r method path \<Longrightarrow> longest_agree r method path"
  unfolding longest_unique_def longest_agree_def
  by (auto split: option.splits)

definition keys_are_patterns :: "'h Router \<Rightarrow> bool" where
  "keys_are_patterns r =
     (\<forall>method m k rt. routes r method = Some m \<and> m k = Some rt \<longrightarrow> pattern rt = k)"

lemma keys_are_patterns_newRouter: "keys_are_patterns newRouter"
  by (simp add: keys_are_patterns_def newRouter_def)

lemma Handler_keys_are_patterns:
  assumes "keys_are_patterns r" and "Handler rb r = Inr r'"
  shows "keys_are_patterns r'"
  using assms unfolding keys_are_patterns_def Handler_def Let_def
  by (auto split: prod.splits sum.splits option.splits if_splits)

lemma register_keys_are_patterns:
  "keys_are_patterns r \<Longrightarrow> register regs r = Inr r' \<Longrightarrow> keys_are_patterns r'"
proof (induction regs arbitrary: r)
  case Nil
  then show ?case by simp
next
  case (Cons x regs)
  from Cons.prems(2) obtain r1 where r1: "Handler x r = Inr r1"
    "register regs r1 = Inr r'" by (auto split: sum.splits)
  from Handler_keys_are_patterns[OF Cons.prems(1) r1(1)] Cons.IH r1(2) show ?case by blast
qed


section \<open>Dispatch (goswift.go, middleware.go)\<close>

text \<open>
  A handler receives the context and returns an optional error; it may change the context
  and anything else in the program, the \<open>world\<close>. The engine keeps the router, the global
  middleware and the error handler (the other fields are not used by dispatch).
\<close>

type_synonym ('u, 'v, 'w) HandlerFunc =
  "('u, 'v) Context \<Rightarrow> 'w \<Rightarrow> error option \<times> ('u, 'v) Context \<times> 'w"

type_synonym ('u, 'v, 'w) MiddlewareFunc =
  "('u, 'v, 'w) HandlerFunc \<Rightarrow> ('u, 'v, 'w) HandlerFunc"

record ('u, 'v, 'w) Engine =
  router :: "('u, 'v, 'w) HandlerFunc Router"
  middleware :: "('u, 'v, 'w) MiddlewareFunc list"
  errorHandler :: "error \<Rightarrow> ('u, 'v) Context \<Rightarrow> 'w \<Rightarrow> ('u, 'v) Context \<times> 'w"

definition Use :: "('u, 'v, 'w) MiddlewareFunc \<Rightarrow> ('u, 'v, 'w) Engine \<Rightarrow> ('u, 'v, 'w) Engine" where
  "Use mw e = e\<lparr>middleware := middleware e @ [mw]\<rparr>"

definition ServeHTTP ::
  "('u, 'v, 'w) Engine \<Rightarrow> string list \<Rightarrow> 'u http_ResponseWriter \<Rightarrow> Request \<Rightarrow> 'w \<Rightarrow>
   ('u, 'v) Context \<times> 'w" where
  "ServeHTTP e ks w r world =
     (let c = newContext w r in
      (case MatchRoute (router e) ks (Method r) (Path r) of
         (h, params) \<Rightarrow>
           (let c1 = SetPathParams (case params of None \<Rightarrow> Map.empty | Some p \<Rightarrow> p) c in
            (case h of
               None \<Rightarrow> errorHandler e (NewHTTPError StatusNotFound ''Not Found'' []) c1 world
             | Some hf \<Rightarrow>
                 (let finalHandler = applyMiddleware hf (middleware e) in
                  (case finalHandler c1 world of
                     (None, c2, world2) \<Rightarrow> (c2, world2)
                   | (Some err, c2, world2) \<Rightarrow> errorHandler e err c2 world2))))))"

text \<open>
  Units whose effects are visible: a handler that performs one effect on the world, and a
  middleware that performs \<open>pre\<close>, calls the next handler, performs \<open>post\<close> and returns
  the next handler's error. \<open>emit\<close> appends an event to a world that is a trace.
\<close>

definition unit_handler :: "('w \<Rightarrow> 'w) \<Rightarrow> ('u, 'v, 'w) HandlerFunc" where
  "unit_handler f = (\<lambda>c world. (None, c, f world))"

definition unit_mw :: "('w \<Rightarrow> 'w) \<Rightarrow> ('w \<Rightarrow> 'w) \<Rightarrow> ('u, 'v, 'w) MiddlewareFunc" where
  "unit_mw pre post =
     (\<lambda>next c world. case next c (pre world) of (err, c', world') \<Rightarrow> (err, c', post world'))"

definition emit :: "string \<Rightarrow> string list \<Rightarrow> string list" where
  "emit ev world = world @ [ev]"

definition no_route_matches :: "'h Router \<Rightarrow> string \<Rightarrow> string \<Rightarrow> bool" where
  "no_route_matches r method requestPath =
     (case routes r method of
        None \<Rightarrow> True
      | Some m \<Rightarrow> (\<forall>k. \<not> route_matches m requestPath k))"

lemma Handler_compiled:
  "route_regex (rb_path rb) = (re, names) \<Longrightarrow> regexp_Compile re = Inr cre \<Longrightarrow>
   Handler rb r =
     Inr (r\<lparr>routes := (routes r)(rb_method rb \<mapsto>
            (case routes r (rb_method rb) of None \<Rightarrow> Map.empty | Some m \<Rightarrow> m)(rb_path rb \<mapsto>
              \<lparr>handler = rb_handler rb, pattern = rb_path rb, before = beforeMW rb,
               after = afterMW rb, regex = cre, paramNames = names\<rparr>))\<rparr>)"
  by (simp add: Handler_def)

lemma unit_chain:
  "applyMiddleware (applyMiddleware (applyMiddleware (unit_handler hh) [unit_mw apre apost])
       [unit_mw bpre bpost]) [unit_mw gpre gpost] c world =
     (None, c, gpost (bpost (apost (hh (apre (bpre (gpre world)))))))"
  by (simp add: unit_handler_def unit_mw_def)

lemma ServeHTTP_not_found:
  assumes "no_route_matches (router e) (Method rq) (Path rq)"
  shows "ServeHTTP e ks w rq world =
           errorHandler e (HTTPError 404 ''Not Found'' None) (newContext w rq) world"
proof -
  have "MatchRoute (router e) ks (Method rq) (Path rq) = (None, None)"
    using assms by (intro MatchRoute_none) (simp add: no_route_matches_def split: option.splits)
  then show ?thesis
    by (simp add: ServeHTTP_def SetPathParams_def newContext_def NewHTTPError_def StatusNotFound_def)
qed

lemma ServeHTTP_nesting:
  assumes sel: "MatchRoute (router e) ks (Method rq) (Path rq) = route_result m (Path rq) k"
    and k: "m k = Some rt" and mt: "route_matches m (Path rq) k"
    and g: "middleware e = [unit_mw gpre gpost]"
    and b: "before rt = [unit_mw bpre bpost]"
    and a: "after rt = [unit_mw apre apost]"
    and h: "handler rt = unit_handler hh"
  shows "snd (ServeHTTP e ks w rq world) = gpost (bpost (apost (hh (apre (bpre (gpre world))))))"
proof -
  obtain ms where ms: "FindStringSubmatch (regex rt) (Path rq) = Some ms"
    using mt k by (auto simp: route_matches_def)
  let ?c1 = "SetPathParams (bind_params 0 (paramNames rt) ms Map.empty) (newContext w rq)"
  let ?hf = "applyMiddleware (applyMiddleware (unit_handler hh) [unit_mw apre apost])
                 [unit_mw bpre bpost]"
  have mr: "MatchRoute (router e) ks (Method rq) (Path rq) =
        (Some ?hf, Some (bind_params 0 (paramNames rt) ms Map.empty))"
    using sel k ms b a h by (simp add: route_result_def)
  have run: "applyMiddleware ?hf (middleware e) ?c1 world =
        (None, ?c1, gpost (bpost (apost (hh (apre (bpre (gpre world)))))))"
    unfolding g by (rule unit_chain)
  show ?thesis
    unfolding ServeHTTP_def Let_def mr by (simp add: run del: applyMiddleware.simps)
qed


section \<open>Route resolution: the claims\<close>

definition ex_h_new :: "(wire, string, string list) HandlerFunc" where
  "ex_h_new = unit_handler (emit ''new'')"

definition ex_h_id :: "(wire, string, string list) HandlerFunc" where
  "ex_h_id = unit_handler (emit ''id'')"

lemma ex_handlers_differ: "ex_h_id \<noteq> ex_h_new"
proof
  assume "ex_h_id = ex_h_new"
  then have "ex_h_id example_context [] = ex_h_new example_context []" by simp
  then show False by (simp add: ex_h_id_def ex_h_new_def unit_handler_def emit_def)
qed

lemma range_order_two:
  assumes ne: "a \<noteq> b" and ord: "range_order ks [a \<mapsto> x, b \<mapsto> y]"
  shows "ks = [a, b] \<or> ks = [b, a]"
proof -
  have d: "distinct ks" and s: "set ks = {a, b}" using ord by (auto simp: range_order_def)
  have "length ks = card (set ks)" using d by (simp add: distinct_card)
  also have "\<dots> = 2" using s ne by simp
  finally obtain p q where pq: "ks = [p, q]"
    by (metis (no_types, opaque_lifting) One_nat_def Suc_1 length_0_conv length_Suc_conv)
  with s have "{p, q} = {a, b}" by simp
  then show ?thesis using pq by (auto simp: doubleton_eq_iff)
qed

lemma range_order_docs: "range_order [''/docs/:id'', ''/docs/new''] (docs_routes h_new h_id)"
  by (auto simp: range_order_def docs_routes_def)

lemma range_order_docs_rev: "range_order [''/docs/new'', ''/docs/:id''] (docs_routes h_new h_id)"
  by (auto simp: range_order_def docs_routes_def)

text \<open>
  C1, as stated, fails: with \<^verbatim>\<open>/docs/:id\<close> and \<^verbatim>\<open>/docs/new\<close> registered for GET
  and the map visited in the order \<^verbatim>\<open>/docs/:id\<close>, \<^verbatim>\<open>/docs/new\<close>, resolving
  \<^verbatim>\<open>/docs/new\<close> returns the parameterized route with \<open>id = new\<close>. Both patterns have
  length 9 and the comparison \<^verbatim>\<open>len(pattern) > longestMatchLen\<close> is strict.
\<close>

theorem docs_new_param_route_wins:
  "register [AddRoute ''GET'' ''/docs/:id'' ex_h_id, AddRoute ''GET'' ''/docs/new'' ex_h_new] newRouter =
     Inr (docs_router ex_h_new ex_h_id) \<and>
   range_order [''/docs/:id'', ''/docs/new''] (docs_routes ex_h_new ex_h_id) \<and>
   MatchRoute (docs_router ex_h_new ex_h_id) [''/docs/:id'', ''/docs/new''] ''GET'' ''/docs/new'' =
     (Some ex_h_id, Some [''id'' \<mapsto> ''new'']) \<and>
   ex_h_id \<noteq> ex_h_new"
  by (intro conjI)
     (rule register_docs range_order_docs MatchRoute_docs_id_first ex_handlers_differ)+

text \<open>
  C1, amended. With both routes registered, resolving \<^verbatim>\<open>/docs/new\<close> returns the
  route that the loop visits first: the literal route when \<^verbatim>\<open>/docs/new\<close> comes first
  in the visiting order, the parameterized one (with \<open>id = new\<close>) otherwise.
\<close>

theorem docs_new_first_visited_wins:
  assumes "range_order ks (docs_routes h_new h_id)"
  shows "MatchRoute (docs_router h_new h_id) ks ''GET'' ''/docs/new'' =
           (if hd ks = ''/docs/new'' then (Some h_new, Some Map.empty)
            else (Some h_id, Some [''id'' \<mapsto> ''new'']))"
proof -
  have "ks = [''/docs/:id'', ''/docs/new''] \<or> ks = [''/docs/new'', ''/docs/:id'']"
    using assms unfolding docs_routes_def by (intro range_order_two) simp_all
  then show ?thesis
    using MatchRoute_docs_new_first[of h_new h_id] MatchRoute_docs_id_first[of h_new h_id]
    by auto
qed

theorem docs_new_first_visited_wins_witness:
  "range_order [''/docs/new'', ''/docs/:id''] (docs_routes ex_h_new ex_h_id) \<and>
   MatchRoute (docs_router ex_h_new ex_h_id) [''/docs/new'', ''/docs/:id''] ''GET'' ''/docs/new'' =
     (Some ex_h_new, Some Map.empty)"
  using docs_new_first_visited_wins[OF range_order_docs_rev, of ex_h_new ex_h_id]
    range_order_docs_rev[of ex_h_new ex_h_id]
  by simp

lemma valid_order_docs:
  "valid_order (docs_router h_new h_id) ''GET'' [''/docs/:id'', ''/docs/new'']"
  "valid_order (docs_router h_new h_id) ''GET'' [''/docs/new'', ''/docs/:id'']"
  by (simp_all add: valid_order_def docs_router_def range_order_docs range_order_docs_rev)

text \<open>
  C2, as stated, fails: on the same router and the same input, two admissible visiting
  orders give different results.
\<close>

theorem MatchRoute_order_dependent:
  "valid_order (docs_router ex_h_new ex_h_id) ''GET'' [''/docs/new'', ''/docs/:id''] \<and>
   valid_order (docs_router ex_h_new ex_h_id) ''GET'' [''/docs/:id'', ''/docs/new''] \<and>
   MatchRoute (docs_router ex_h_new ex_h_id) [''/docs/new'', ''/docs/:id''] ''GET'' ''/docs/new'' \<noteq>
   MatchRoute (docs_router ex_h_new ex_h_id) [''/docs/:id'', ''/docs/new''] ''GET'' ''/docs/new''"
proof -
  have "(Map.empty :: string \<rightharpoonup> string) \<noteq> [''id'' \<mapsto> ''new'']"
  proof
    assume "(Map.empty :: string \<rightharpoonup> string) = [''id'' \<mapsto> ''new'']"
    then have "(Map.empty :: string \<rightharpoonup> string) ''id'' = [''id'' \<mapsto> ''new''] ''id''"
      by (rule fun_cong)
    then show False by simp
  qed
  then show ?thesis
    by (simp add: valid_order_docs MatchRoute_docs_new_first MatchRoute_docs_id_first)
qed


subsection \<open>The routes \<^verbatim>\<open>/static/*\<close> and \<^verbatim>\<open>/static/app.js\<close>\<close>

definition re_static_wild :: Regexp where
  "re_static_wild =
     \<lparr>prog = seq_of (Bol # lits ''/static/'' @ [Group 1 (Star AnyChar), Opt (Lit (CHR ''/'')), Eol]),
      numSubexp = 1\<rparr>"

definition re_static_app :: Regexp where
  "re_static_app =
     \<lparr>prog = seq_of (Bol # lits ''/static/app.js'' @ [Opt (Lit (CHR ''/'')), Eol]), numSubexp = 0\<rparr>"

lemma route_regex_static_wild: "route_regex ''/static/*'' = (''^/static/(.*)/?$'', [''wildcard''])"
  by code_simp

lemma route_regex_static_app:
  "route_regex ''/static/app.js'' = (''^/static/app'' @ [CHR 0x5C] @ ''.js/?$'', [])"
  by code_simp

lemma compile_static_wild: "regexp_Compile ''^/static/(.*)/?$'' = Inr re_static_wild"
  by code_simp

lemma compile_static_app:
  "regexp_Compile (''^/static/app'' @ [CHR 0x5C] @ ''.js/?$'') = Inr re_static_app"
  by code_simp

lemma find_static_wild:
  "FindStringSubmatch re_static_wild ''/static/app.js'' = Some [''/static/app.js'', ''app.js'']"
  by code_simp

lemma find_static_app:
  "FindStringSubmatch re_static_app ''/static/app.js'' = Some [''/static/app.js'']"
  by code_simp

definition static_routes :: "'h \<Rightarrow> 'h \<Rightarrow> (string \<rightharpoonup> 'h route)" where
  "static_routes h_wild h_app =
     [''/static/*'' \<mapsto>
        \<lparr>handler = h_wild, pattern = ''/static/*'', before = [], after = [],
         regex = re_static_wild, paramNames = [''wildcard'']\<rparr>,
      ''/static/app.js'' \<mapsto>
        \<lparr>handler = h_app, pattern = ''/static/app.js'', before = [], after = [],
         regex = re_static_app, paramNames = []\<rparr>]"

definition static_router :: "'h \<Rightarrow> 'h \<Rightarrow> 'h Router" where
  "static_router h_wild h_app = \<lparr>routes = [''GET'' \<mapsto> static_routes h_wild h_app]\<rparr>"

lemma register_static:
  "register [AddRoute ''GET'' ''/static/*'' h_wild, AddRoute ''GET'' ''/static/app.js'' h_app] newRouter =
     Inr (static_router h_wild h_app)"
  by (simp add: Handler_def AddRoute_def route_regex_static_wild route_regex_static_app
        compile_static_wild compile_static_app newRouter_def static_router_def static_routes_def
        del: append.simps)

lemma range_order_static:
  "range_order [''/static/*'', ''/static/app.js''] (static_routes h_wild h_app)"
  "range_order [''/static/app.js'', ''/static/*''] (static_routes h_wild h_app)"
  by (auto simp: range_order_def static_routes_def)

lemma route_matches_static:
  "route_matches (static_routes h_wild h_app) ''/static/app.js'' k =
     (k = ''/static/*'' \<or> k = ''/static/app.js'')"
  by (simp add: route_matches_def static_routes_def find_static_wild find_static_app)

lemma keys_static: "keys_are_patterns (static_router h_wild h_app)"
  using register_keys_are_patterns[OF keys_are_patterns_newRouter register_static] .

lemma MatchRoute_static:
  "MatchRoute (static_router h_wild h_app) [''/static/*'', ''/static/app.js''] ''GET'' ''/static/app.js'' =
     (Some h_app, Some Map.empty)"
  "MatchRoute (static_router h_wild h_app) [''/static/app.js'', ''/static/*''] ''GET'' ''/static/app.js'' =
     (Some h_app, Some Map.empty)"
  by (simp_all add: MatchRoute_def static_router_def static_routes_def match_step_def
        find_static_wild find_static_app)

text \<open>
  C2, amended. For a router state in which the method's routes can be visited at all,
  \<^verbatim>\<open>MatchRoute\<close> returns the same handler and the same parameters for every
  admissible visiting order exactly when all matching routes of greatest pattern length
  give the same handler and parameters; in particular it does so when only one matching
  route has the greatest pattern length.
\<close>

theorem MatchRoute_order_independent_iff:
  assumes "valid_order r method ks"
  shows "(order_independent r method path = longest_agree r method path) \<and>
         (longest_unique r method path \<longrightarrow> order_independent r method path)"
proof -
  have a: "longest_agree r method path \<Longrightarrow> order_independent r method path"
    unfolding order_independent_def using longest_agree_independent by blast
  have b: "order_independent r method path \<Longrightarrow> longest_agree r method path"
    using independent_longest_agree[OF _ assms] by blast
  show ?thesis using a b longest_unique_agree by blast
qed


lemma longest_match_static:
  "longest_match (static_routes h_wild h_app) ''/static/app.js'' k = (k = ''/static/app.js'')"
proof
  assume a: "longest_match (static_routes h_wild h_app) ''/static/app.js'' k"
  then have k: "k = ''/static/*'' \<or> k = ''/static/app.js''"
    by (simp add: longest_match_def route_matches_static)
  have "route_matches (static_routes h_wild h_app) ''/static/app.js'' ''/static/app.js''"
    by (simp add: route_matches_static)
  with a have "length ''/static/app.js'' \<le> length k"
    unfolding longest_match_def by blast
  then have "k \<noteq> ''/static/*''" by auto
  with k show "k = ''/static/app.js''" by simp
next
  assume k: "k = ''/static/app.js''"
  have "length k' \<le> length ''/static/app.js''"
    if "route_matches (static_routes h_wild h_app) ''/static/app.js'' k'" for k'
  proof -
    from that have "k' = ''/static/*'' \<or> k' = ''/static/app.js''"
      by (simp add: route_matches_static)
    then show ?thesis by auto
  qed
  moreover have "route_matches (static_routes h_wild h_app) ''/static/app.js'' ''/static/app.js''"
    by (simp add: route_matches_static)
  ultimately show "longest_match (static_routes h_wild h_app) ''/static/app.js'' k"
    unfolding longest_match_def k by blast
qed

theorem MatchRoute_order_independent_iff_witness:
  "valid_order (static_router ex_h_id ex_h_new) ''GET'' [''/static/*'', ''/static/app.js''] \<and>
   valid_order (static_router ex_h_id ex_h_new) ''GET'' [''/static/app.js'', ''/static/*''] \<and>
   longest_unique (static_router ex_h_id ex_h_new) ''GET'' ''/static/app.js'' \<and>
   longest_agree (static_router ex_h_id ex_h_new) ''GET'' ''/static/app.js'' \<and>
   order_independent (static_router ex_h_id ex_h_new) ''GET'' ''/static/app.js'' \<and>
   MatchRoute (static_router ex_h_id ex_h_new) [''/static/*'', ''/static/app.js''] ''GET'' ''/static/app.js'' =
   MatchRoute (static_router ex_h_id ex_h_new) [''/static/app.js'', ''/static/*''] ''GET'' ''/static/app.js''"
proof -
  have v1: "valid_order (static_router ex_h_id ex_h_new) ''GET'' [''/static/*'', ''/static/app.js'']"
    and v2: "valid_order (static_router ex_h_id ex_h_new) ''GET'' [''/static/app.js'', ''/static/*'']"
    by (simp_all add: valid_order_def static_router_def range_order_static)
  have u: "longest_unique (static_router ex_h_id ex_h_new) ''GET'' ''/static/app.js''"
    by (simp add: longest_unique_def static_router_def longest_match_static)
  have ag: "longest_agree (static_router ex_h_id ex_h_new) ''GET'' ''/static/app.js''"
    by (simp add: longest_agree_def static_router_def longest_match_static)
  have ind: "order_independent (static_router ex_h_id ex_h_new) ''GET'' ''/static/app.js''"
    by (rule MatchRoute_order_independent_iff[OF v1, THEN conjunct2, rule_format, OF u])
  have eq: "MatchRoute (static_router ex_h_id ex_h_new) [''/static/*'', ''/static/app.js''] ''GET'' ''/static/app.js'' =
   MatchRoute (static_router ex_h_id ex_h_new) [''/static/app.js'', ''/static/*''] ''GET'' ''/static/app.js''"
    by (rule ind[unfolded order_independent_def, rule_format, OF conjI[OF v1 v2]])
  show ?thesis
    by (intro conjI) (rule v1 v2 u ag ind eq)+
qed

text \<open>
  C3. When some route of the method matches the path, \<^verbatim>\<open>MatchRoute\<close> returns the
  handler chain and the parameters of a matching route whose pattern is at least as long
  as the pattern of every matching route of that method. (Routes are stored under their
  pattern: \<open>keys_are_patterns\<close> holds for every router built by \<open>Handler\<close>.)
\<close>

theorem MatchRoute_longest_pattern:
  assumes "keys_are_patterns r" and "routes r method = Some m" and "range_order ks m"
    and "route_matches m path k0"
  shows "\<exists>k rt ms. m k = Some rt \<and> FindStringSubmatch (regex rt) path = Some ms \<and>
           MatchRoute r ks method path =
             (Some (applyMiddleware (applyMiddleware (handler rt) (after rt)) (before rt)),
              Some (bind_params 0 (paramNames rt) ms Map.empty)) \<and>
           (\<forall>k' rt'. m k' = Some rt' \<and> FindStringSubmatch (regex rt') path \<noteq> None \<longrightarrow>
                     length (pattern rt') \<le> length (pattern rt))"
proof -
  from MatchRoute_selects[OF assms(2,3,4)] obtain k where
    k: "route_matches m path k" "MatchRoute r ks method path = route_result m path k"
       "\<forall>k'. route_matches m path k' \<longrightarrow> length k' \<le> length k" by blast
  from k(1) obtain rt ms where rt: "m k = Some rt" "FindStringSubmatch (regex rt) path = Some ms"
    by (auto simp: route_matches_def split: option.splits)
  have pk: "pattern rt = k" using assms(1,2) rt(1) unfolding keys_are_patterns_def by blast
  have "length (pattern rt') \<le> length (pattern rt)"
    if "m k' = Some rt' \<and> FindStringSubmatch (regex rt') path \<noteq> None" for k' rt'
  proof -
    have "route_matches m path k'" using that by (simp add: route_matches_def)
    moreover have "pattern rt' = k'" using assms(1,2) that unfolding keys_are_patterns_def by blast
    ultimately show ?thesis using k(3) pk by simp
  qed
  moreover have "MatchRoute r ks method path =
             (Some (applyMiddleware (applyMiddleware (handler rt) (after rt)) (before rt)),
              Some (bind_params 0 (paramNames rt) ms Map.empty))"
    using k(2) rt by (simp add: route_result_def)
  ultimately show ?thesis using rt by blast
qed

theorem MatchRoute_longest_pattern_witness:
  "keys_are_patterns (static_router ex_h_id ex_h_new) \<and>
   routes (static_router ex_h_id ex_h_new) ''GET'' = Some (static_routes ex_h_id ex_h_new) \<and>
   range_order [''/static/*'', ''/static/app.js''] (static_routes ex_h_id ex_h_new) \<and>
   route_matches (static_routes ex_h_id ex_h_new) ''/static/app.js'' ''/static/*'' \<and>
   MatchRoute (static_router ex_h_id ex_h_new) [''/static/*'', ''/static/app.js''] ''GET'' ''/static/app.js'' =
     (Some ex_h_new, Some Map.empty) \<and>
   (\<exists>k rt ms. static_routes ex_h_id ex_h_new k = Some rt \<and>
      FindStringSubmatch (regex rt) ''/static/app.js'' = Some ms \<and>
      MatchRoute (static_router ex_h_id ex_h_new) [''/static/*'', ''/static/app.js''] ''GET'' ''/static/app.js'' =
        (Some (applyMiddleware (applyMiddleware (handler rt) (after rt)) (before rt)),
         Some (bind_params 0 (paramNames rt) ms Map.empty)) \<and>
      (\<forall>k' rt'. static_routes ex_h_id ex_h_new k' = Some rt' \<and>
           FindStringSubmatch (regex rt') ''/static/app.js'' \<noteq> None \<longrightarrow>
           length (pattern rt') \<le> length (pattern rt)))"
proof -
  have r: "routes (static_router ex_h_id ex_h_new) ''GET'' = Some (static_routes ex_h_id ex_h_new)"
    by (simp add: static_router_def)
  have mt: "route_matches (static_routes ex_h_id ex_h_new) ''/static/app.js'' ''/static/*''"
    by (simp add: route_matches_static)
  from MatchRoute_longest_pattern[OF keys_static r range_order_static(1) mt]
  show ?thesis
    using keys_static[of ex_h_id ex_h_new] r range_order_static(1)[of ex_h_id ex_h_new] mt
      MatchRoute_static(1)[of ex_h_id ex_h_new]
    by blast
qed


subsection \<open>The routes \<^verbatim>\<open>/users/:id\<close> and \<^verbatim>\<open>/users/:id([0-9]+)\<close>\<close>

definition re_users_id :: Regexp where
  "re_users_id =
     \<lparr>prog = seq_of (Bol # lits ''/users/'' @
               [Group 1 (Plus (Class True [(CHR ''/'', CHR ''/'')])), Opt (Lit (CHR ''/'')), Eol]),
      numSubexp = 1\<rparr>"

definition re_users_digits :: Regexp where
  "re_users_digits =
     \<lparr>prog = seq_of (Bol # lits ''/users/'' @
               [Group 1 (Plus (Class False [(CHR ''0'', CHR ''9'')])), Opt (Lit (CHR ''/'')), Eol]),
      numSubexp = 1\<rparr>"

lemma route_regex_users_id: "route_regex ''/users/:id'' = (''^/users/([^/]+)/?$'', [''id''])"
  by code_simp

lemma route_regex_users_digits:
  "route_regex ''/users/:id([0-9]+)'' = (''^/users/([0-9]+)/?$'', [''id''])"
  by code_simp

lemma compile_users_id: "regexp_Compile ''^/users/([^/]+)/?$'' = Inr re_users_id"
  by code_simp

lemma compile_users_digits: "regexp_Compile ''^/users/([0-9]+)/?$'' = Inr re_users_digits"
  by code_simp

lemma find_users_id: "FindStringSubmatch re_users_id ''/users/42'' = Some [''/users/42'', ''42'']"
  by code_simp

lemma find_users_digits: "FindStringSubmatch re_users_digits ''/users/abc'' = None"
  by code_simp

definition users_router :: "string \<Rightarrow> 'h \<Rightarrow> 'h Router" where
  "users_router method h =
     \<lparr>routes = [method \<mapsto> [''/users/:id'' \<mapsto>
        \<lparr>handler = h, pattern = ''/users/:id'', before = [], after = [],
         regex = re_users_id, paramNames = [''id'']\<rparr>]]\<rparr>"

definition digits_router :: "string \<Rightarrow> 'h \<Rightarrow> 'h Router" where
  "digits_router method h =
     \<lparr>routes = [method \<mapsto> [''/users/:id([0-9]+)'' \<mapsto>
        \<lparr>handler = h, pattern = ''/users/:id([0-9]+)'', before = [], after = [],
         regex = re_users_digits, paramNames = [''id'']\<rparr>]]\<rparr>"

lemma register_users:
  "register [AddRoute method ''/users/:id'' h] newRouter = Inr (users_router method h)"
  by (simp add: Handler_def AddRoute_def route_regex_users_id compile_users_id newRouter_def
        users_router_def)

lemma register_digits:
  "register [AddRoute method ''/users/:id([0-9]+)'' h] newRouter = Inr (digits_router method h)"
  by (simp add: Handler_def AddRoute_def route_regex_users_digits compile_users_digits
        newRouter_def digits_router_def)

text \<open>
  C4. After registering \<^verbatim>\<open>/users/:id\<close> for a method, resolving \<^verbatim>\<open>/users/42\<close>
  returns that route's handler and the parameters \<open>id = 42\<close>; after registering only
  \<^verbatim>\<open>/users/:id([0-9]+)\<close>, resolving \<^verbatim>\<open>/users/abc\<close> returns no handler. (A map
  with one entry has one visiting order.)
\<close>

theorem users_id_roundtrip:
  "register [AddRoute method ''/users/:id'' h] newRouter = Inr (users_router method h) \<and>
   MatchRoute (users_router method h) [''/users/:id''] method ''/users/42'' =
     (Some h, Some [''id'' \<mapsto> ''42'']) \<and>
   register [AddRoute method ''/users/:id([0-9]+)'' h] newRouter = Inr (digits_router method h) \<and>
   MatchRoute (digits_router method h) [''/users/:id([0-9]+)''] method ''/users/abc'' = (None, None)"
proof (intro conjI)
  show "register [AddRoute method ''/users/:id'' h] newRouter = Inr (users_router method h)"
    by (rule register_users)
  show "MatchRoute (users_router method h) [''/users/:id''] method ''/users/42'' =
          (Some h, Some [''id'' \<mapsto> ''42''])"
    by (simp add: MatchRoute_def users_router_def match_step_def find_users_id)
  show "register [AddRoute method ''/users/:id([0-9]+)'' h] newRouter = Inr (digits_router method h)"
    by (rule register_digits)
  show "MatchRoute (digits_router method h) [''/users/:id([0-9]+)''] method ''/users/abc'' = (None, None)"
    by (simp add: MatchRoute_def digits_router_def match_step_def find_users_digits)
qed

section \<open>Dispatch: the claims\<close>

text \<open>
  An error handler that writes the status code of the error (500 for an error that is not
  an \<^verbatim>\<open>HTTPError\<close>), and an engine with one global unit G and one route
  \<^verbatim>\<open>/docs/new\<close> that has the before unit B, an after unit A and the handler H.
\<close>

definition status_errorHandler ::
  "error \<Rightarrow> (wire, string) Context \<Rightarrow> string list \<Rightarrow> (wire, string) Context \<times> string list" where
  "status_errorHandler err c world =
     (c\<lparr>Writer := WriteHeader (case err of HTTPError s m e \<Rightarrow> s | OtherError m \<Rightarrow> 500) (Writer c)\<rparr>,
      world)"

definition mw_G :: "(wire, string, string list) MiddlewareFunc" where
  "mw_G = unit_mw (emit ''G-pre'') (emit ''G-post'')"

definition mw_B :: "(wire, string, string list) MiddlewareFunc" where
  "mw_B = unit_mw (emit ''B-pre'') (emit ''B-post'')"

definition mw_A_after :: "(wire, string, string list) MiddlewareFunc" where
  "mw_A_after = unit_mw id (emit ''A'')"

definition h_H :: "(wire, string, string list) HandlerFunc" where
  "h_H = unit_handler (emit ''H'')"

definition nested_route ::
  "(wire, string, string list) MiddlewareFunc \<Rightarrow> (wire, string, string list) HandlerFunc route" where
  "nested_route mw_A =
     \<lparr>handler = h_H, pattern = ''/docs/new'', before = [mw_B], after = [mw_A],
      regex = re_docs_new, paramNames = []\<rparr>"

definition nested_engine ::
  "(wire, string, string list) MiddlewareFunc \<Rightarrow> (wire, string, string list) Engine" where
  "nested_engine mw_A =
     \<lparr>router = \<lparr>routes = [''GET'' \<mapsto> [''/docs/new'' \<mapsto> nested_route mw_A]]\<rparr>,
      middleware = [mw_G], errorHandler = status_errorHandler\<rparr>"

definition docs_new_request :: Request where
  "docs_new_request = \<lparr>Method = ''GET'', Path = ''/docs/new''\<rparr>"

lemma register_nested:
  "register [After [mw_A] (Before [mw_B] (AddRoute ''GET'' ''/docs/new'' h_H))] newRouter =
     Inr (router (nested_engine mw_A))"
  by (simp add: Handler_def AddRoute_def After_def Before_def route_regex_docs_new compile_docs_new
        newRouter_def nested_engine_def nested_route_def)

lemma Use_nested:
  "Use mw_G \<lparr>router = router (nested_engine mw_A), middleware = [], errorHandler = status_errorHandler\<rparr> =
     nested_engine mw_A"
  by (simp add: Use_def nested_engine_def)

lemma MatchRoute_nested:
  "MatchRoute (router (nested_engine mw_A)) [''/docs/new''] ''GET'' ''/docs/new'' =
     route_result [''/docs/new'' \<mapsto> nested_route mw_A] ''/docs/new'' ''/docs/new''"
  by (simp add: MatchRoute_def nested_engine_def nested_route_def match_step_def route_result_def
        find_docs_new)

text \<open>
  C5. For a global unit G, a before unit B, an after unit A (a unit whose code runs after
  its call of the next handler) and a handler H, the chain that dispatch builds runs G's
  code before next, B's code before next, H, A, B's code after next and G's code after
  next, in this order. (Code that a unit passed to \<^verbatim>\<open>After\<close> runs before calling
  next would run between B's code before next and H, as \<open>ServeHTTP_nesting\<close> shows.)
\<close>

theorem ServeHTTP_middleware_order:
  assumes "MatchRoute (router e) ks (Method rq) (Path rq) = route_result m (Path rq) k"
    and "m k = Some rt" and "route_matches m (Path rq) k"
    and "middleware e = [unit_mw gpre gpost]"
    and "before rt = [unit_mw bpre bpost]"
    and "after rt = [unit_mw id a]"
    and "handler rt = unit_handler hh"
  shows "snd (ServeHTTP e ks w rq world) = gpost (bpost (a (hh (bpre (gpre world)))))"
  using ServeHTTP_nesting[OF assms, of w world] by simp

theorem ServeHTTP_middleware_order_witness:
  "register [After [mw_A_after] (Before [mw_B] (AddRoute ''GET'' ''/docs/new'' h_H))] newRouter =
     Inr (router (nested_engine mw_A_after)) \<and>
   MatchRoute (router (nested_engine mw_A_after)) [''/docs/new''] (Method docs_new_request)
      (Path docs_new_request) =
     route_result [''/docs/new'' \<mapsto> nested_route mw_A_after] (Path docs_new_request) ''/docs/new'' \<and>
   route_matches [''/docs/new'' \<mapsto> nested_route mw_A_after] (Path docs_new_request) ''/docs/new'' \<and>
   snd (ServeHTTP (nested_engine mw_A_after) [''/docs/new''] server_writer docs_new_request []) =
     [''G-pre'', ''B-pre'', ''H'', ''A'', ''B-post'', ''G-post'']"
proof -
  have sel: "MatchRoute (router (nested_engine mw_A_after)) [''/docs/new''] (Method docs_new_request)
      (Path docs_new_request) =
     route_result [''/docs/new'' \<mapsto> nested_route mw_A_after] (Path docs_new_request) ''/docs/new''"
    by (simp add: docs_new_request_def MatchRoute_nested)
  have k: "[''/docs/new'' \<mapsto> nested_route mw_A_after] ''/docs/new'' = Some (nested_route mw_A_after)"
    by simp
  have mt: "route_matches [''/docs/new'' \<mapsto> nested_route mw_A_after] (Path docs_new_request) ''/docs/new''"
    by (simp add: route_matches_def nested_route_def docs_new_request_def find_docs_new)
  have g: "middleware (nested_engine mw_A_after) = [unit_mw (emit ''G-pre'') (emit ''G-post'')]"
    by (simp add: nested_engine_def mw_G_def)
  have b: "before (nested_route mw_A_after) = [unit_mw (emit ''B-pre'') (emit ''B-post'')]"
    by (simp add: nested_route_def mw_B_def)
  have a: "after (nested_route mw_A_after) = [unit_mw id (emit ''A'')]"
    by (simp add: nested_route_def mw_A_after_def)
  have h: "handler (nested_route mw_A_after) = unit_handler (emit ''H'')"
    by (simp add: nested_route_def h_H_def)
  have reg: "register [After [mw_A_after] (Before [mw_B] (AddRoute ''GET'' ''/docs/new'' h_H))] newRouter =
     Inr (router (nested_engine mw_A_after))"
    by (rule register_nested)
  have tr: "emit ''G-post'' (emit ''B-post'' (emit ''A'' (emit ''H'' (emit ''B-pre'' (emit ''G-pre'' []))))) =
     [''G-pre'', ''B-pre'', ''H'', ''A'', ''B-post'', ''G-post'']"
    by (simp add: emit_def)
  have run: "snd (ServeHTTP (nested_engine mw_A_after) [''/docs/new''] server_writer docs_new_request []) =
     [''G-pre'', ''B-pre'', ''H'', ''A'', ''B-post'', ''G-post'']"
    unfolding ServeHTTP_middleware_order[OF sel k mt g b a h, of server_writer "[]"] by (rule tr)
  show ?thesis
    by (intro conjI) (rule reg sel mt run)+
qed

text \<open>
  C6. When no route of the request's method matches its path, \<^verbatim>\<open>ServeHTTP\<close> is
  exactly the error handler applied to the error 404 "Not Found" on the fresh context:
  whatever the global middleware and the routes' middleware are, none of them is applied.
\<close>

theorem ServeHTTP_not_found_skips_middleware:
  assumes "no_route_matches (router e) (Method rq) (Path rq)"
  shows "ServeHTTP e ks w rq world =
           errorHandler e (HTTPError 404 ''Not Found'' None) (newContext w rq) world"
  using assms by (rule ServeHTTP_not_found)

definition digits_engine :: "(wire, string, string list) Engine" where
  "digits_engine =
     \<lparr>router = digits_router ''GET'' h_H, middleware = [mw_G], errorHandler = status_errorHandler\<rparr>"

definition users_abc_request :: Request where
  "users_abc_request = \<lparr>Method = ''GET'', Path = ''/users/abc''\<rparr>"

theorem ServeHTTP_not_found_skips_middleware_witness:
  "no_route_matches (router digits_engine) (Method users_abc_request) (Path users_abc_request) \<and>
   snd (ServeHTTP digits_engine [''/users/:id([0-9]+)''] server_writer users_abc_request []) = [] \<and>
   Status (fst (ServeHTTP digits_engine [''/users/:id([0-9]+)''] server_writer users_abc_request [])) = 404"
proof -
  have n: "no_route_matches (router digits_engine) (Method users_abc_request) (Path users_abc_request)"
    by (simp add: no_route_matches_def digits_engine_def digits_router_def users_abc_request_def
          route_matches_def find_users_digits)
  from ServeHTTP_not_found_skips_middleware[OF n, of "[''/users/:id([0-9]+)'']" server_writer "[]"]
  show ?thesis
    using n by (simp add: digits_engine_def status_errorHandler_def Status_def status_WriteHeader)
qed

end
